theory Spec2Isabelle
  imports Complex_Main
begin

section \<open>Background service worker: the turn-delivery queue\<close>

text \<open>
  Embedding of \<^verbatim>\<open>extension/src/background/background.ts\<close>.

  The worker is single-threaded JavaScript. One \<^emph>\<open>task\<close> of the event loop (an incoming
  message, the completion of a \<^verbatim>\<open>fetch\<close>, a timer) runs to completion and is followed by the
  microtask checkpoint, which runs every queued promise reaction before the next task starts.
  The model keeps that structure: a handler is a function on the state, promise reactions are
  entries of an explicit microtask queue, and \<open>step\<close> is one task followed by \<open>drain\<close>.

  Promises are kept in a store indexed by their identity, because the clean-up handler of
  \<^verbatim>\<open>handleNewTurns\<close> compares promise identities
  (\<^verbatim>\<open>processingQueues.get(conversationId) === next\<close>).
\<close>

type_synonym ConversationId = string

datatype Speaker = user | model

text \<open>\<^verbatim>\<open>interface Turn\<close>; the fields \<^verbatim>\<open>id\<close> and \<^verbatim>\<open>text\<close> carry a suffix.\<close>

record Turn =
  id_t :: nat
  speaker :: Speaker
  text_t :: string
  ts :: string

definition MAX_RETRIES :: nat where
  "MAX_RETRIES = 3"

text \<open>
  What the worker does to the outside world, in the order it does it:
  \<open>FetchIssued c t r\<close> is the call \<^verbatim>\<open>fetch(.../analyze-turn)\<close> of \<^verbatim>\<open>analyzeTurn(c, t, r)\<close>,
  \<open>Delivered c t\<close> the normal end of its \<^verbatim>\<open>try\<close> block,
  \<open>TimeoutSet c t ms\<close> the \<^verbatim>\<open>setTimeout(resolve, ms)\<close> of its \<^verbatim>\<open>catch\<close> block, and
  \<open>Dropped c t\<close> the return of the \<^verbatim>\<open>catch\<close> block once \<^verbatim>\<open>retries < MAX_RETRIES\<close> fails.
\<close>

datatype io =
    FetchIssued ConversationId Turn nat
  | Delivered ConversationId Turn
  | TimeoutSet ConversationId Turn nat
  | Dropped ConversationId Turn

text \<open>
  The promise \<^verbatim>\<open>next\<close> created by one call of \<^verbatim>\<open>handleNewTurns\<close>, together with the
  progress of its \<^verbatim>\<open>async\<close> callback:
  \<open>Chained turns\<close>: the callback is registered with \<^verbatim>\<open>prev.then\<close> and has not started;
  \<open>Fetching t r rest\<close>: the loop is inside \<^verbatim>\<open>analyzeTurn(c, t, r)\<close>, awaiting \<^verbatim>\<open>fetch\<close>, with
  \<open>rest\<close> the turns the \<^verbatim>\<open>for\<close> loop has not reached;
  \<open>Sleeping t r rest\<close>: the same call awaits the timer of its \<^verbatim>\<open>catch\<close> block;
  \<open>Settled\<close>: the callback returned and \<^verbatim>\<open>next\<close> is fulfilled.
  \<open>reactions\<close> are the promises whose callbacks wait for this one through \<^verbatim>\<open>then\<close>.
\<close>

datatype phase =
    Chained "Turn list"
  | Fetching Turn nat "Turn list"
  | Sleeping Turn nat "Turn list"
  | Settled

record promise =
  convId :: ConversationId
  phase :: phase
  reactions :: "nat list"

datatype microtask = RunCallback nat | Cleanup nat

record bg_state =
  processingQueues :: "ConversationId \<rightharpoonup> nat"
  promises :: "promise list"
  microtasks :: "microtask list"
  trace :: "io list"

definition bg_init :: bg_state where
  "bg_init = \<lparr>processingQueues = Map.empty, promises = [], microtasks = [], trace = []\<rparr>"

definition set_phase :: "nat \<Rightarrow> phase \<Rightarrow> bg_state \<Rightarrow> bg_state" where
  "set_phase j ph s = s\<lparr>promises := (promises s)[j := (promises s ! j)\<lparr>phase := ph\<rparr>]\<rparr>"

definition emit :: "io \<Rightarrow> bg_state \<Rightarrow> bg_state" where
  "emit e s = s\<lparr>trace := trace s @ [e]\<rparr>"

text \<open>
  \<^verbatim>\<open>handleNewTurns\<close>, the synchronous part: \<^verbatim>\<open>prev\<close> is the stored promise or
  \<^verbatim>\<open>Promise.resolve()\<close>; \<^verbatim>\<open>prev.then(callback)\<close> queues the callback as a microtask when
  \<^verbatim>\<open>prev\<close> is already fulfilled and registers it as a reaction otherwise; the new promise is
  stored under the conversation id. The identity of \<^verbatim>\<open>next\<close> is the next free index of the
  store. The \<^verbatim>\<open>finally\<close> clean-up is the \<open>Cleanup\<close> reaction every promise has (see \<open>settle\<close>).
\<close>

definition handleNewTurns :: "ConversationId \<Rightarrow> Turn list \<Rightarrow> bg_state \<Rightarrow> bg_state" where
  "handleNewTurns c turns s =
    (let next = length (promises s);
         new = \<lparr>convId = c, phase = Chained turns, reactions = []\<rparr>;
         pending_prev =
           (case processingQueues s c of
              None \<Rightarrow> None
            | Some p \<Rightarrow> if p < length (promises s) \<and> phase (promises s ! p) \<noteq> Settled
                        then Some p else None)
     in (case pending_prev of
           None \<Rightarrow>
             s\<lparr>promises := promises s @ [new],
               microtasks := microtasks s @ [RunCallback next],
               processingQueues := (processingQueues s)(c \<mapsto> next)\<rparr>
         | Some p \<Rightarrow>
             s\<lparr>promises :=
                 (promises s)[p := (promises s ! p)\<lparr>reactions := reactions (promises s ! p) @ [next]\<rparr>]
                 @ [new],
               processingQueues := (processingQueues s)(c \<mapsto> next)\<rparr>))"

text \<open>
  \<^verbatim>\<open>analyzeTurn(c, t, r)\<close> up to its first \<^verbatim>\<open>await\<close>: the request is issued.
\<close>

definition analyzeTurn :: "nat \<Rightarrow> Turn \<Rightarrow> nat \<Rightarrow> Turn list \<Rightarrow> bg_state \<Rightarrow> bg_state" where
  "analyzeTurn j t r rest s =
     set_phase j (Fetching t r rest) (emit (FetchIssued (convId (promises s ! j)) t r) s)"

text \<open>
  The callback returns: \<^verbatim>\<open>next\<close> is fulfilled and its reactions become microtasks, the
  \<^verbatim>\<open>finally\<close> clean-up (registered first, inside \<^verbatim>\<open>handleNewTurns\<close>) before the callbacks
  chained by later calls.
\<close>

definition settle :: "nat \<Rightarrow> bg_state \<Rightarrow> bg_state" where
  "settle j s =
     s\<lparr>promises := (promises s)[j := (promises s ! j)\<lparr>phase := Settled, reactions := []\<rparr>],
       microtasks := microtasks s @ Cleanup j # map RunCallback (reactions (promises s ! j))\<rparr>"

text \<open>
  \<^verbatim>\<open>for (const turn of turns) { await analyzeTurn(conversationId, turn); }\<close>
  at the head of the loop, with \<open>turns\<close> the turns not yet reached.
\<close>

definition loop_next :: "nat \<Rightarrow> Turn list \<Rightarrow> bg_state \<Rightarrow> bg_state" where
  "loop_next j turns s =
     (case turns of [] \<Rightarrow> settle j s | t # rest \<Rightarrow> analyzeTurn j t 0 rest s)"

text \<open>
  A promise reaction. \<open>RunCallback j\<close> starts the callback of promise \<open>j\<close>;
  \<open>Cleanup j\<close> is
  \<^verbatim>\<open>if (processingQueues.get(conversationId) === next) processingQueues.delete(conversationId)\<close>.
\<close>

definition run_microtask :: "microtask \<Rightarrow> bg_state \<Rightarrow> bg_state" where
  "run_microtask m s =
     (case m of
        RunCallback j \<Rightarrow>
          (if j < length (promises s)
           then (case phase (promises s ! j) of Chained turns \<Rightarrow> loop_next j turns s | _ \<Rightarrow> s)
           else s)
      | Cleanup j \<Rightarrow>
          (if j < length (promises s) \<and> processingQueues s (convId (promises s ! j)) = Some j
           then s\<lparr>processingQueues := (processingQueues s)(convId (promises s ! j) := None)\<rparr>
           else s))"

definition unsettled :: "bg_state \<Rightarrow> nat" where
  "unsettled s = length (filter (\<lambda>p. phase p \<noteq> Settled) (promises s))"

lemma length_filter_update_less:
  "j < length xs \<Longrightarrow> P (xs ! j) \<Longrightarrow> \<not> P y \<Longrightarrow>
   length (filter P (xs[j := y])) < length (filter P xs)"
proof (induction xs arbitrary: j)
  case Nil
  then show ?case by simp
next
  case (Cons x xs)
  show ?case
  proof (cases j)
    case 0
    with Cons.prems show ?thesis by simp
  next
    case (Suc k)
    with Cons.prems Cons.IH [of k] show ?thesis by simp
  qed
qed

lemma length_filter_update_same:
  "j < length xs \<Longrightarrow> P (xs ! j) = P y \<Longrightarrow>
   length (filter P (xs[j := y])) = length (filter P xs)"
proof (induction xs arbitrary: j)
  case Nil
  then show ?case by simp
next
  case (Cons x xs)
  show ?case
  proof (cases j)
    case 0
    with Cons.prems show ?thesis by simp
  next
    case (Suc k)
    with Cons.prems Cons.IH [of k] show ?thesis by simp
  qed
qed

lemma run_microtask_measure:
  "unsettled (run_microtask m s) < unsettled s \<or>
   (unsettled (run_microtask m s) = unsettled s \<and>
    length (microtasks (run_microtask m s)) = length (microtasks s))"
proof (cases m)
  case (Cleanup j)
  then show ?thesis by (simp add: run_microtask_def unsettled_def)
next
  case (RunCallback j)
  show ?thesis
  proof (cases "j < length (promises s)")
    case False
    with RunCallback show ?thesis by (simp add: run_microtask_def)
  next
    case inrange: True
    show ?thesis
    proof (cases "phase (promises s ! j)")
      case (Chained tl)
      show ?thesis
      proof (cases tl)
        case Nil
        have "length (filter (\<lambda>p. phase p \<noteq> Settled)
                 ((promises s)[j := (promises s ! j)\<lparr>phase := Settled, reactions := []\<rparr>]))
              < length (filter (\<lambda>p. phase p \<noteq> Settled) (promises s))"
          using inrange Chained by (intro length_filter_update_less) simp_all
        with RunCallback inrange Chained Nil show ?thesis
          by (simp add: run_microtask_def loop_next_def settle_def unsettled_def)
      next
        case (Cons t rest)
        have "length (filter (\<lambda>p. phase p \<noteq> Settled)
                 ((promises s)[j := (promises s ! j)\<lparr>phase := Fetching t 0 rest\<rparr>]))
              = length (filter (\<lambda>p. phase p \<noteq> Settled) (promises s))"
          using inrange Chained by (intro length_filter_update_same) simp_all
        with RunCallback inrange Chained Cons show ?thesis
          by (simp add: run_microtask_def loop_next_def analyzeTurn_def set_phase_def
              emit_def unsettled_def)
      qed
    qed (use RunCallback inrange in \<open>simp_all add: run_microtask_def\<close>)
  qed
qed

text \<open>
  The microtask checkpoint: reactions run in queue order until the queue is empty.
\<close>

function drain :: "bg_state \<Rightarrow> bg_state" where
  "drain s =
     (case microtasks s of
        [] \<Rightarrow> s
      | m # ms \<Rightarrow> drain (run_microtask m (s\<lparr>microtasks := ms\<rparr>)))"
  by pat_completeness auto
termination
proof (relation "measures [unsettled, \<lambda>s. length (microtasks s)]")
  show "wf (measures [unsettled, \<lambda>s. length (microtasks s)])" by simp
next
  fix s :: bg_state and m ms
  assume q: "microtasks s = m # ms"
  have u: "unsettled (s\<lparr>microtasks := ms\<rparr>) = unsettled s"
    by (simp add: unsettled_def)
  from run_microtask_measure [of m "s\<lparr>microtasks := ms\<rparr>"] q u
  show "(run_microtask m (s\<lparr>microtasks := ms\<rparr>), s)
          \<in> measures [unsettled, \<lambda>s. length (microtasks s)]"
    by auto
qed

declare drain.simps [simp del]

lemma drain_Nil: "microtasks s = [] \<Longrightarrow> drain s = s"
  by (subst drain.simps) simp

lemma drain_Cons:
  "microtasks s = m # ms \<Longrightarrow> drain s = drain (run_microtask m (s\<lparr>microtasks := ms\<rparr>))"
  by (subst drain.simps) simp

text \<open>
  \<^verbatim>\<open>analyzeTurn\<close> after \<^verbatim>\<open>await fetch(...)\<close>. \<open>ok\<close> says that the \<^verbatim>\<open>try\<close> block ran to its end
  (the request succeeded with an ok status and the body was read); otherwise the \<^verbatim>\<open>catch\<close>
  block runs: with \<^verbatim>\<open>retries < MAX_RETRIES\<close> it awaits
  \<^verbatim>\<open>setTimeout(resolve, 2000 * (retries + 1))\<close>, and without it the function returns, which
  resumes the \<^verbatim>\<open>for\<close> loop of the callback.
\<close>

definition analyzeTurn_settled :: "nat \<Rightarrow> bool \<Rightarrow> bg_state \<Rightarrow> bg_state" where
  "analyzeTurn_settled j ok s =
     (if j < length (promises s)
      then (case phase (promises s ! j) of
              Fetching t r rest \<Rightarrow>
                (let c = convId (promises s ! j) in
                 if ok then loop_next j rest (emit (Delivered c t) s)
                 else if r < MAX_RETRIES
                   then set_phase j (Sleeping t r rest) (emit (TimeoutSet c t (2000 * (r + 1))) s)
                   else loop_next j rest (emit (Dropped c t) s))
            | _ \<Rightarrow> s)
      else s)"

text \<open>
  The timer of the \<^verbatim>\<open>catch\<close> block fires:
  \<^verbatim>\<open>return analyzeTurn(conversationId, turn, retries + 1)\<close>.
\<close>

definition analyzeTurn_retry :: "nat \<Rightarrow> bg_state \<Rightarrow> bg_state" where
  "analyzeTurn_retry j s =
     (if j < length (promises s)
      then (case phase (promises s ! j) of
              Sleeping t r rest \<Rightarrow> analyzeTurn j t (r + 1) rest s
            | _ \<Rightarrow> s)
      else s)"

text \<open>
  The tasks of the event loop: a \<^verbatim>\<open>NEW_TURNS\<close> message, the completion of the request of
  promise \<open>j\<close>'s callback, and the firing of its retry timer. A completion or a timer that
  the callback is not waiting for cannot occur and leaves the state as it is.
\<close>

datatype event =
    NewTurns ConversationId "Turn list"
  | FetchDone nat bool
  | TimerDone nat

definition handle_event :: "event \<Rightarrow> bg_state \<Rightarrow> bg_state" where
  "handle_event e s =
     (case e of
        NewTurns c turns \<Rightarrow> handleNewTurns c turns s
      | FetchDone j ok \<Rightarrow> analyzeTurn_settled j ok s
      | TimerDone j \<Rightarrow> analyzeTurn_retry j s)"

definition step :: "event \<Rightarrow> bg_state \<Rightarrow> bg_state" where
  "step e s = drain (handle_event e s)"

definition run :: "bg_state \<Rightarrow> event list \<Rightarrow> bg_state" where
  "run s evs = foldl (\<lambda>s e. step e s) s evs"

text \<open>Two turns for the examples.\<close>

definition turn1 :: Turn where
  "turn1 = \<lparr>id_t = 1, speaker = user, text_t = ''hello'', ts = ''t0''\<rparr>"

definition turn2 :: Turn where
  "turn2 = \<lparr>id_t = 2, speaker = model, text_t = ''hi there'', ts = ''t1''\<rparr>"

subsection \<open>What the trace and the store say about a conversation\<close>

text \<open>
  The turns of conversation \<open>c\<close> whose delivery has started, in the order of their first
  request, and the turns handed over with \<^verbatim>\<open>NEW_TURNS\<close> messages, in the order of the
  messages.
\<close>

definition first_request :: "ConversationId \<Rightarrow> io \<Rightarrow> Turn list" where
  "first_request c e =
     (case e of FetchIssued c' t r \<Rightarrow> if c' = c \<and> r = 0 then [t] else [] | _ \<Rightarrow> [])"

definition started :: "ConversationId \<Rightarrow> io list \<Rightarrow> Turn list" where
  "started c tr = concat (map (first_request c) tr)"

definition enqueued_by :: "ConversationId \<Rightarrow> event \<Rightarrow> Turn list" where
  "enqueued_by c e =
     (case e of NewTurns c' turns \<Rightarrow> if c' = c then turns else [] | _ \<Rightarrow> [])"

definition enqueued :: "ConversationId \<Rightarrow> event list \<Rightarrow> Turn list" where
  "enqueued c evs = concat (map (enqueued_by c) evs)"

text \<open>
  The turns of \<open>c\<close> that the callbacks in the store have not started yet, in the order of the
  store.
\<close>

fun turns_left :: "phase \<Rightarrow> Turn list" where
  "turns_left (Chained turns) = turns"
| "turns_left (Fetching t r rest) = rest"
| "turns_left (Sleeping t r rest) = rest"
| "turns_left Settled = []"

definition waiting_in :: "ConversationId \<Rightarrow> promise \<Rightarrow> Turn list" where
  "waiting_in c p = (if convId p = c then turns_left (phase p) else [])"

definition waiting :: "ConversationId \<Rightarrow> bg_state \<Rightarrow> Turn list" where
  "waiting c s = concat (map (waiting_in c) (promises s))"

text \<open>
  The delivery of one conversation as a protocol: nothing in flight; attempt \<open>r\<close> of turn
  \<open>t\<close> in flight; or waiting to retry \<open>t\<close> after attempt \<open>r\<close>. \<open>track\<close> follows the trace of the
  worker and gives \<open>None\<close> as soon as an event of conversation \<open>c\<close> does not fit: a first
  request is issued only when nothing is in flight; a delivery ends by success or, once
  \<^verbatim>\<open>retries < MAX_RETRIES\<close> fails, by a drop; a retry follows a timer of
  \<^verbatim>\<open>2000 * (retries + 1)\<close> ms and repeats the same turn.
\<close>

datatype flight = Idle | InFlight Turn nat | Backoff Turn nat

definition io_conv :: "io \<Rightarrow> ConversationId" where
  "io_conv e =
     (case e of FetchIssued c t r \<Rightarrow> c | Delivered c t \<Rightarrow> c
      | TimeoutSet c t ms \<Rightarrow> c | Dropped c t \<Rightarrow> c)"

fun advance :: "flight \<Rightarrow> io \<Rightarrow> flight option" where
  "advance Idle (FetchIssued c t r) = (if r = 0 then Some (InFlight t 0) else None)"
| "advance (InFlight t r) (Delivered c t') = (if t' = t then Some Idle else None)"
| "advance (InFlight t r) (Dropped c t') =
     (if t' = t \<and> \<not> r < MAX_RETRIES then Some Idle else None)"
| "advance (InFlight t r) (TimeoutSet c t' ms) =
     (if t' = t \<and> r < MAX_RETRIES \<and> ms = 2000 * (r + 1) then Some (Backoff t r) else None)"
| "advance (Backoff t r) (FetchIssued c t' r') =
     (if t' = t \<and> r' = r + 1 then Some (InFlight t r') else None)"
| "advance f e = None"

definition track :: "ConversationId \<Rightarrow> flight option \<Rightarrow> io \<Rightarrow> flight option" where
  "track c st e =
     (case st of None \<Rightarrow> None | Some f \<Rightarrow> if io_conv e = c then advance f e else Some f)"

definition serial :: "ConversationId \<Rightarrow> io list \<Rightarrow> bool" where
  "serial c tr = (foldl (track c) (Some Idle) tr \<noteq> None)"

text \<open>What the callbacks of \<open>c\<close> in the store have in flight.\<close>

fun active_flight :: "phase \<Rightarrow> flight list" where
  "active_flight (Fetching t r rest) = [InFlight t r]"
| "active_flight (Sleeping t r rest) = [Backoff t r]"
| "active_flight ph = []"

definition flights_in :: "ConversationId \<Rightarrow> promise \<Rightarrow> flight list" where
  "flights_in c p = (if convId p = c then active_flight (phase p) else [])"

definition flights :: "ConversationId \<Rightarrow> bg_state \<Rightarrow> flight list" where
  "flights c s = concat (map (flights_in c) (promises s))"

definition phase_flight :: "phase \<Rightarrow> flight" where
  "phase_flight ph = (case active_flight ph of [] \<Rightarrow> Idle | f # fs \<Rightarrow> f)"

definition flight_of :: "ConversationId \<Rightarrow> bg_state \<Rightarrow> flight" where
  "flight_of c s = (case flights c s of [] \<Rightarrow> Idle | f # fs \<Rightarrow> f)"

subsection \<open>The shape of the store\<close>

text \<open>
  Every promise of the conversation of \<open>j\<close> before \<open>j\<close> is settled; every one after \<open>j\<close> is
  chained and its callback is not queued.
\<close>

definition is_chained :: "phase \<Rightarrow> bool" where
  "is_chained ph = (case ph of Chained turns \<Rightarrow> True | _ \<Rightarrow> False)"

definition settled_before :: "bg_state \<Rightarrow> nat \<Rightarrow> bool" where
  "settled_before s j \<longleftrightarrow>
     (\<forall>i<j. convId (promises s ! i) = convId (promises s ! j)
            \<longrightarrow> phase (promises s ! i) = Settled)"

definition parked_after :: "bg_state \<Rightarrow> nat \<Rightarrow> bool" where
  "parked_after s j \<longleftrightarrow>
     (\<forall>k. j < k \<and> k < length (promises s) \<and> convId (promises s ! k) = convId (promises s ! j)
          \<longrightarrow> is_chained (phase (promises s ! k)) \<and> RunCallback k \<notin> set (microtasks s))"

text \<open>
  The invariant of the store (\<open>bg_inv_run\<close> below), in five parts: an entry of
  \<^verbatim>\<open>processingQueues\<close> is the last promise of its conversation; a conversation without
  entry has only settled promises; behind a promise that is not settled the later ones of
  its conversation are parked; queued reactions refer to the store, a queued clean-up to a
  settled promise; and a reaction of a promise is the next promise of its conversation.
\<close>

definition entries_last :: "bg_state \<Rightarrow> bool" where
  "entries_last s \<longleftrightarrow>
     (\<forall>c p. processingQueues s c = Some p \<longrightarrow>
        p < length (promises s) \<and> convId (promises s ! p) = c \<and>
        (\<forall>k. p < k \<and> k < length (promises s) \<longrightarrow> convId (promises s ! k) \<noteq> c))"

definition absent_settled :: "bg_state \<Rightarrow> bool" where
  "absent_settled s \<longleftrightarrow>
     (\<forall>c. processingQueues s c = None \<longrightarrow>
        (\<forall>j < length (promises s). convId (promises s ! j) = c
           \<longrightarrow> phase (promises s ! j) = Settled))"

definition later_parked :: "bg_state \<Rightarrow> bool" where
  "later_parked s \<longleftrightarrow>
     (\<forall>j < length (promises s). phase (promises s ! j) \<noteq> Settled \<longrightarrow> parked_after s j)"

definition queue_valid :: "bg_state \<Rightarrow> bool" where
  "queue_valid s \<longleftrightarrow>
     (\<forall>j. RunCallback j \<in> set (microtasks s) \<longrightarrow> j < length (promises s)) \<and>
     (\<forall>j. Cleanup j \<in> set (microtasks s) \<longrightarrow>
        j < length (promises s) \<and> phase (promises s ! j) = Settled)"

definition reactions_next :: "bg_state \<Rightarrow> bool" where
  "reactions_next s \<longleftrightarrow>
     (\<forall>j < length (promises s). \<forall>k \<in> set (reactions (promises s ! j)).
        j < k \<and> k < length (promises s) \<and> convId (promises s ! k) = convId (promises s ! j) \<and>
        (\<forall>i. j < i \<and> i < k \<longrightarrow> convId (promises s ! i) \<noteq> convId (promises s ! j)))"

definition bg_inv :: "bg_state \<Rightarrow> bool" where
  "bg_inv s \<longleftrightarrow>
     entries_last s \<and> absent_settled s \<and> later_parked s \<and> queue_valid s \<and> reactions_next s"

text \<open>
  What links the trace to the store, for the turns \<open>q c\<close> enqueued so far: the turns started
  followed by the turns waiting are the turns enqueued, and the protocol stands where the
  store says.
\<close>

definition tr_inv :: "(ConversationId \<Rightarrow> Turn list) \<Rightarrow> bg_state \<Rightarrow> bool" where
  "tr_inv q s \<longleftrightarrow>
     (\<forall>c. started c (trace s) @ waiting c s = q c \<and>
          foldl (track c) (Some Idle) (trace s) = Some (flight_of c s))"

section \<open>Content script: the producer of turns\<close>






section \<open>Sidebar: metrics polling and the escalation state machine\<close>

text \<open>
  Embedding of the \<^verbatim>\<open>Sidebar\<close> component. A React function component is a state (the
  \<^verbatim>\<open>useState\<close> variables and \<^verbatim>\<open>useRef\<close> cells) together with effects that React runs after a
  render whose dependencies changed, the clean-ups of the previous runs first.

  The record \<open>sidebar\<close> holds for every state variable the value that the next render will
  read: the component calls its setters with values only, never with functions, so of the
  updates queued since the last render the last one counts. \<^verbatim>\<open>escalationStateRef\<close> is written by
  the body of the component and so holds the escalation state of the last render; the
  dependency lists are those of the last effect phase.

  An effect run owns a closure variable \<^verbatim>\<open>isMounted\<close> and its timers. Runs are numbered;
  \<open>metricsMounted\<close> and \<open>k2Mounted\<close> hold the number of the run whose \<^verbatim>\<open>isMounted\<close> is
  still true, so \<^verbatim>\<open>isMounted\<close> of run \<open>g\<close> reads \<open>k2Mounted s = Some g\<close>.

  The component is mounted with \<^verbatim>\<open>createRoot\<close> (\<^verbatim>\<open>index.tsx\<close>, React 18). A setter called
  from a timer or from the continuation of a \<^verbatim>\<open>fetch\<close> does not render: React renders in a
  later task, and it runs the effect phase of that render later still, at the latest before
  the next render. A callback that runs in between reads the ref as the last render wrote it
  and \<^verbatim>\<open>isMounted\<close> as the last effect phase left it. The model \<open>root\<close> below therefore
  makes the render and the effect phase tasks of their own, which can come in any order with
  the callbacks; \<open>sb_step\<close> is the schedule in which React does its work right after every
  callback. (\<^verbatim>\<open>React.StrictMode\<close> repeats the effects of the first render in a development
  build; \<^verbatim>\<open>conversationId\<close> is empty then and the three effects return at once.)
\<close>

datatype EscalationState = idle | escalated_pending | k2_confirmed | k2_overridden | k2_failed

definition METRICS_POLL_INTERVAL :: nat where
  "METRICS_POLL_INTERVAL = 1500"

definition K2_POLL_INTERVAL :: nat where
  "K2_POLL_INTERVAL = 2000"

definition K2_TIMEOUT :: nat where
  "K2_TIMEOUT = 90000"

text \<open>
  \<^verbatim>\<open>MetricsResponse\<close> and \<^verbatim>\<open>K2StatusResponse\<close> of \<^verbatim>\<open>types.ts\<close>. The component reads
  the parts of a metrics response with \<^verbatim>\<open>?.\<close>, so each part may be absent. The strings of
  a status response are kept as strings: they come from the wire.
\<close>

record Drift =
  cumulative_drift_score :: real
  drift_velocity :: real
  turns_since_last_drift :: real
  total_drift_events :: real
  is_recovering :: bool

record Commitments =
  total_c :: real
  active_c :: real
  inactive_c :: real

record Contradictions =
  count_c :: real
  rate_c :: real

record Escalation =
  total_escalations :: real
  escalation_rate :: real

record MetricsResponse =
  drift :: "Drift option"
  commitments :: "Commitments option"
  contradictions_m :: "Contradictions option"
  escalation :: "Escalation option"

record K2StatusResponse =
  conversation_id :: string
  escalation_active :: bool
  status :: "string option"
  result_type :: "string option"
  reason :: "string option"
  k2_confidence :: "real option"
  k2_explanation :: "string option"
  timestamp :: "string option"

text \<open>
  How a \<^verbatim>\<open>fetch\<close> followed by \<^verbatim>\<open>response.json()\<close> ends: the request fails, the status is
  not ok, the body does not parse, or the parsed body.
\<close>

datatype 'a response = NetworkError | NotOk | BadBody | Ok 'a

datatype timer = MetricsInterval nat | K2Interval nat | K2Timeout nat

datatype request = GetMetrics ConversationId | GetK2Status ConversationId

record sidebar =
  conversationId :: string
  driftScore :: real
  driftVelocity :: real
  isRecovering :: bool
  activeCommitments :: real
  contradictions :: real
  escalationState :: EscalationState
  escalationReason :: string
  k2Confidence :: real
  k2Explanation :: string
  escalationStartTimeRef :: nat
  escalationStateRef :: EscalationState
  prevConversationIdRef :: string
  resetDeps :: "string option"
  metricsDeps :: "string option"
  k2Deps :: "(string \<times> EscalationState) option"
  metricsMounted :: "nat option"
  k2Mounted :: "nat option"
  timers :: "(timer \<times> nat) list"
  nextRun :: nat
  requests :: "(nat \<times> request) list"

definition sb_init :: sidebar where
  "sb_init =
     \<lparr>conversationId = [], driftScore = 0, driftVelocity = 0, isRecovering = False,
      activeCommitments = 0, contradictions = 0, escalationState = idle,
      escalationReason = [], k2Confidence = 0, k2Explanation = [],
      escalationStartTimeRef = 0, escalationStateRef = idle, prevConversationIdRef = [],
      resetDeps = None, metricsDeps = None, k2Deps = None,
      metricsMounted = None, k2Mounted = None, timers = [], nextRun = 0, requests = []\<rparr>"

text \<open>
  \<^verbatim>\<open>extractConversationId\<close>: the leftmost match of \<^verbatim>\<open>/\/c\/([a-zA-Z0-9-]+)/\<close>, its group
  taken greedily, or \<open>''default''\<close>.
\<close>

definition id_char :: "char \<Rightarrow> bool" where
  "id_char ch =
     (ch \<in> set ''abcdefghijklmnopqrstuvwxyzABCDEFGHIJKLMNOPQRSTUVWXYZ0123456789-'')"

fun match_c :: "string \<Rightarrow> string option" where
  "match_c [] = None"
| "match_c (x # xs) =
     (if x = CHR ''/'' \<and> take 2 xs = ''c/'' \<and> takeWhile id_char (drop 2 xs) \<noteq> []
      then Some (takeWhile id_char (drop 2 xs))
      else match_c xs)"

definition extractConversationId :: "string \<Rightarrow> string" where
  "extractConversationId url = (case match_c url of Some m \<Rightarrow> m | None \<Rightarrow> ''default'')"

text \<open>The render: \<^verbatim>\<open>escalationStateRef.current = escalationState\<close>.\<close>

definition render :: "sidebar \<Rightarrow> sidebar" where
  "render s = s\<lparr>escalationStateRef := escalationState s\<rparr>"

text \<open>
  The effect "reset all state when switching to a different conversation", with \<open>cid\<close> the
  \<^verbatim>\<open>conversationId\<close> of the render.
\<close>

definition resetEffect :: "string \<Rightarrow> sidebar \<Rightarrow> sidebar" where
  "resetEffect cid s =
     (if cid = [] \<or> cid = prevConversationIdRef s then s
      else s\<lparr>prevConversationIdRef := cid,
             driftScore := 0, driftVelocity := 0, isRecovering := False,
             activeCommitments := 0, contradictions := 0,
             escalationState := idle, escalationReason := [],
             k2Confidence := 0, k2Explanation := []\<rparr>)"

text \<open>
  The metrics polling effect: the first \<^verbatim>\<open>pollMetrics()\<close> issues its request at once, then the
  interval is installed. Its clean-up clears \<^verbatim>\<open>isMounted\<close> and the interval.
\<close>

definition metricsEffect :: "string \<Rightarrow> sidebar \<Rightarrow> sidebar" where
  "metricsEffect cid s =
     (if cid = [] then s
      else s\<lparr>nextRun := nextRun s + 1,
             metricsMounted := Some (nextRun s),
             requests := requests s @ [(nextRun s, GetMetrics cid)],
             timers := timers s @ [(MetricsInterval (nextRun s), METRICS_POLL_INTERVAL)]\<rparr>)"

definition metricsCleanup :: "sidebar \<Rightarrow> sidebar" where
  "metricsCleanup s =
     (case metricsMounted s of
        None \<Rightarrow> s
      | Some g \<Rightarrow>
          s\<lparr>metricsMounted := None,
            timers := filter (\<lambda>tm. fst tm \<noteq> MetricsInterval g) (timers s)\<rparr>)"

text \<open>
  The K2 polling effect, with \<open>cid\<close> and \<open>es\<close> the \<^verbatim>\<open>conversationId\<close> and \<^verbatim>\<open>escalationState\<close>
  of the render: outside \<^verbatim>\<open>escalated_pending\<close> it returns at once; otherwise the first
  \<^verbatim>\<open>pollK2()\<close> issues its request, and the interval and the timeout are installed. Its clean-up
  clears \<^verbatim>\<open>isMounted\<close>, the interval and the timeout.
\<close>

definition k2Effect :: "string \<Rightarrow> EscalationState \<Rightarrow> sidebar \<Rightarrow> sidebar" where
  "k2Effect cid es s =
     (if cid = [] \<or> es \<noteq> escalated_pending then s
      else s\<lparr>nextRun := nextRun s + 1,
             k2Mounted := Some (nextRun s),
             requests := requests s @ [(nextRun s, GetK2Status cid)],
             timers := timers s @ [(K2Interval (nextRun s), K2_POLL_INTERVAL),
                                   (K2Timeout (nextRun s), K2_TIMEOUT)]\<rparr>)"

definition k2Cleanup :: "sidebar \<Rightarrow> sidebar" where
  "k2Cleanup s =
     (case k2Mounted s of
        None \<Rightarrow> s
      | Some g \<Rightarrow>
          s\<lparr>k2Mounted := None,
            timers := filter (\<lambda>tm. fst tm \<noteq> K2Interval g \<and> fst tm \<noteq> K2Timeout g) (timers s)\<rparr>)"

text \<open>
  The effect phase of a render, with \<open>cid\<close> and \<open>es\<close> the \<^verbatim>\<open>conversationId\<close> and
  \<^verbatim>\<open>escalationState\<close> of that render. An effect runs when its dependency list differs from
  the one of its last run; the clean-ups of the effects that run come first, then their
  bodies in the order of the source (reset, metrics polling, K2 polling). The bodies read
  \<^verbatim>\<open>conversationId\<close> and \<^verbatim>\<open>escalationState\<close> as rendered, also when the reset effect has
  just set new values.
\<close>

definition effects :: "string \<Rightarrow> EscalationState \<Rightarrow> sidebar \<Rightarrow> sidebar" where
  "effects cid es s =
     (let reset_runs = (resetDeps s \<noteq> Some cid);
          metrics_runs = (metricsDeps s \<noteq> Some cid);
          k2_runs = (k2Deps s \<noteq> Some (cid, es));
          s1 = (if metrics_runs then metricsCleanup s else s);
          s2 = (if k2_runs then k2Cleanup s1 else s1);
          s3 = (if reset_runs then resetEffect cid s2 else s2);
          s4 = (if metrics_runs then metricsEffect cid s3 else s3);
          s5 = (if k2_runs then k2Effect cid es s4 else s4)
      in s5\<lparr>resetDeps := Some cid, metricsDeps := Some cid, k2Deps := Some (cid, es)\<rparr>)"

text \<open>One render followed at once by its effect phase.\<close>

definition commit :: "sidebar \<Rightarrow> sidebar" where
  "commit s0 = (let s = render s0 in effects (conversationId s) (escalationState s) s)"

text \<open>
  Only the reset effect sets state from inside an effect, and it does so at most once per
  conversation change, so a second commit reaches a state that a further commit leaves as it
  is (\<open>at_rest_flush\<close> and \<open>commit_at_rest\<close> below).
\<close>

definition flush :: "sidebar \<Rightarrow> sidebar" where
  "flush s = commit (commit s)"

text \<open>\<^verbatim>\<open>x || d\<close> for an optional string: the default for an absent or empty one.\<close>

definition or_default :: "string option \<Rightarrow> string \<Rightarrow> string" where
  "or_default x d = (case x of None \<Rightarrow> d | Some v \<Rightarrow> if v = [] then d else v)"

text \<open>
  The callbacks of an effect run read \<^verbatim>\<open>conversationId\<close> from the closure of the render
  for which the effect ran. That render's dependency list is what \<open>metricsDeps\<close> and \<open>k2Deps\<close>
  record, and a run stays mounted only as long as the list does not change, so for a mounted
  run the \<^verbatim>\<open>conversationId\<close> of its closure is the one in the dependency list, whatever
  \<^verbatim>\<open>setConversationId\<close> has been called with since.
\<close>

definition metricsClosure :: "sidebar \<Rightarrow> string" where
  "metricsClosure s = (case metricsDeps s of None \<Rightarrow> [] | Some cid \<Rightarrow> cid)"

definition k2Closure :: "sidebar \<Rightarrow> string" where
  "k2Closure s = (case k2Deps s of None \<Rightarrow> [] | Some d \<Rightarrow> fst d)"

text \<open>\<^verbatim>\<open>pollMetrics\<close> of effect run \<open>g\<close>, up to its request.\<close>

definition pollMetrics :: "nat \<Rightarrow> sidebar \<Rightarrow> sidebar" where
  "pollMetrics g s =
     (if metricsClosure s = [] \<or> metricsMounted s \<noteq> Some g then s
      else s\<lparr>requests := requests s @ [(g, GetMetrics (metricsClosure s))]\<rparr>)"

text \<open>
  The five state updates of \<^verbatim>\<open>pollMetrics\<close>; \<^verbatim>\<open>x?.f || 0\<close> is \<open>0\<close> for an absent part.
\<close>

definition setMetrics :: "MetricsResponse \<Rightarrow> sidebar \<Rightarrow> sidebar" where
  "setMetrics data s =
     s\<lparr>driftScore := (case drift data of None \<Rightarrow> 0 | Some d \<Rightarrow> cumulative_drift_score d),
       driftVelocity := (case drift data of None \<Rightarrow> 0 | Some d \<Rightarrow> drift_velocity d),
       isRecovering := (case drift data of None \<Rightarrow> False | Some d \<Rightarrow> is_recovering d),
       activeCommitments := (case commitments data of None \<Rightarrow> 0 | Some c \<Rightarrow> active_c c),
       contradictions := (case contradictions_m data of None \<Rightarrow> 0 | Some c \<Rightarrow> count_c c)\<rparr>"

text \<open>\<^verbatim>\<open>data.escalation?.total_escalations > 0\<close>.\<close>

definition escalated :: "MetricsResponse \<Rightarrow> bool" where
  "escalated data = (case escalation data of None \<Rightarrow> False | Some e \<Rightarrow> total_escalations e > 0)"

text \<open>
  \<^verbatim>\<open>pollMetrics\<close> of run \<open>g\<close> after its awaits, at clock reading \<open>now\<close>: nothing when the
  run is no longer mounted, when the request failed, when the status is not ok or when
  the body does not parse.
\<close>

definition pollMetrics_resume :: "nat \<Rightarrow> nat \<Rightarrow> MetricsResponse response \<Rightarrow> sidebar \<Rightarrow> sidebar" where
  "pollMetrics_resume g now res s =
     (if metricsMounted s \<noteq> Some g then s
      else (case res of
              Ok data \<Rightarrow>
                (if escalated data \<and> escalationStateRef s = idle
                 then (setMetrics data s)
                        \<lparr>escalationState := escalated_pending,
                         escalationReason := ''Cumulative Drift > Threshold'',
                         escalationStartTimeRef := now\<rparr>
                 else setMetrics data s)
            | _ \<Rightarrow> s))"

definition pollK2 :: "nat \<Rightarrow> sidebar \<Rightarrow> sidebar" where
  "pollK2 g s =
     (if k2Mounted s \<noteq> Some g then s
      else s\<lparr>requests := requests s @ [(g, GetK2Status (k2Closure s))]\<rparr>)"

definition pollK2_resume :: "nat \<Rightarrow> K2StatusResponse response \<Rightarrow> sidebar \<Rightarrow> sidebar" where
  "pollK2_resume g res s =
     (if k2Mounted s \<noteq> Some g then s
      else (case res of
              Ok data \<Rightarrow>
                (if status data = Some ''completed'' then
                   (if result_type data = Some ''confirmed'' then
                      s\<lparr>escalationState := k2_confirmed,
                        k2Confidence := (case k2_confidence data of None \<Rightarrow> 0 | Some x \<Rightarrow> x),
                        k2Explanation :=
                          or_default (k2_explanation data)
                            ''Contradiction confirmed by K2 reasoning''\<rparr>
                    else if result_type data = Some ''overridden'' then
                      s\<lparr>escalationState := k2_overridden,
                        k2Explanation :=
                          or_default (k2_explanation data)
                            ''Heuristic false positive - no actual contradiction''\<rparr>
                    else s)
                 else if status data = Some ''failed'' then
                   s\<lparr>escalationState := k2_failed,
                     k2Explanation := ''K2 reasoning failed. Heuristic result retained.''\<rparr>
                 else s)
            | _ \<Rightarrow> s))"

text \<open>The callback of the timeout of run \<open>g\<close>.\<close>

definition k2Timeout :: "nat \<Rightarrow> sidebar \<Rightarrow> sidebar" where
  "k2Timeout g s =
     (if k2Mounted s = Some g
      then s\<lparr>escalationState := k2_failed,
             k2Explanation := ''K2 reasoning timed out. Heuristic result retained.''\<rparr>
      else s)"

text \<open>
  The callbacks the browser can run: a tab event that delivers a URL, a timer, and the end
  of a request of an effect run. A timer that is not installed (cleared, or a timeout that
  has fired) never runs; a timeout is removed when it fires.
\<close>

datatype sb_event =
    TabUrl string
  | TimerFired timer
  | MetricsArrived nat nat "MetricsResponse response"
  | K2StatusArrived nat "K2StatusResponse response"

definition fire :: "timer \<Rightarrow> sidebar \<Rightarrow> sidebar" where
  "fire tm s =
     (if tm \<notin> fst ` set (timers s) then s
      else (case tm of
              MetricsInterval g \<Rightarrow> pollMetrics g s
            | K2Interval g \<Rightarrow> pollK2 g s
            | K2Timeout g \<Rightarrow> k2Timeout g (s\<lparr>timers := filter (\<lambda>x. fst x \<noteq> tm) (timers s)\<rparr>)))"

definition sb_handle :: "sb_event \<Rightarrow> sidebar \<Rightarrow> sidebar" where
  "sb_handle e s =
     (case e of
        TabUrl url \<Rightarrow> s\<lparr>conversationId := extractConversationId url\<rparr>
      | TimerFired tm \<Rightarrow> fire tm s
      | MetricsArrived g now res \<Rightarrow> pollMetrics_resume g now res s
      | K2StatusArrived g res \<Rightarrow> pollK2_resume g res s)"

text \<open>
  The root made by \<^verbatim>\<open>createRoot\<close>: the component and, between a render and its effect phase,
  the \<^verbatim>\<open>conversationId\<close> and \<^verbatim>\<open>escalationState\<close> that the render read (the effects compare them
  with their dependency lists and keep them in their closures). A task of the page is a
  callback of the component, a render, or an effect phase.
\<close>

record root =
  sidebar_of :: sidebar
  pendingPassive :: "(string \<times> EscalationState) option"

datatype task = Callback sb_event | Render | Effects

text \<open>
  An effect phase runs the effects of the render that waits for it. A render first runs an
  effect phase that has not run yet, as React does before it renders again; then the body
  of the component runs, which writes the ref. A callback runs its handler and nothing else:
  what it sets waits for the next render. React renders only after a setter has been called;
  a render of the model that no setter has asked for rewrites the ref with the value it
  holds and is followed by an effect phase in which no dependency has changed, so the
  schedules of the model include those of React.
\<close>

definition root_init :: root where
  "root_init = \<lparr>sidebar_of = sb_init, pendingPassive = None\<rparr>"

definition flushPassiveEffects :: "root \<Rightarrow> root" where
  "flushPassiveEffects d =
     (case pendingPassive d of
        None \<Rightarrow> d
      | Some r \<Rightarrow> \<lparr>sidebar_of = effects (fst r) (snd r) (sidebar_of d), pendingPassive = None\<rparr>)"

definition renderRoot :: "root \<Rightarrow> root" where
  "renderRoot d =
     (let s = render (sidebar_of (flushPassiveEffects d))
      in \<lparr>sidebar_of = s, pendingPassive = Some (conversationId s, escalationState s)\<rparr>)"

definition root_step :: "task \<Rightarrow> root \<Rightarrow> root" where
  "root_step t d =
     (case t of
        Callback e \<Rightarrow> d\<lparr>sidebar_of := sb_handle e (sidebar_of d)\<rparr>
      | Render \<Rightarrow> renderRoot d
      | Effects \<Rightarrow> flushPassiveEffects d)"

definition root_run :: "root \<Rightarrow> task list \<Rightarrow> root" where
  "root_run d tasks = foldl (\<lambda>d t. root_step t d) d tasks"

text \<open>
  The states of the root along a list of tasks, and the escalation state that the user sees:
  the one of the last render, which is the one the ref holds.
\<close>

fun root_states :: "root \<Rightarrow> task list \<Rightarrow> root list" where
  "root_states d [] = [d]"
| "root_states d (t # tasks) = d # root_states (root_step t d) tasks"

definition rendered :: "root \<Rightarrow> EscalationState" where
  "rendered d = escalationStateRef (sidebar_of d)"

text \<open>
  The schedule in which React does its work at once: every callback is followed by a
  render and its effect phase, and by a second render and effect phase for what the reset
  effect has set (\<open>sb_step_schedule\<close> below). It serves for the properties of a single
  callback (a conversation change, a poll that carries no result); the properties of the
  escalation state machine and of its timers are proved for every schedule of the root.
\<close>

definition sb_step :: "sb_event \<Rightarrow> sidebar \<Rightarrow> sidebar" where
  "sb_step e s = flush (sb_handle e s)"

definition sb_run :: "sidebar \<Rightarrow> sb_event list \<Rightarrow> sidebar" where
  "sb_run s evs = foldl (\<lambda>s e. sb_step e s) s evs"

text \<open>The tasks of the root on that schedule.\<close>

definition immediate :: "sb_event list \<Rightarrow> task list" where
  "immediate evs = concat (map (\<lambda>e. [Callback e, Render, Effects, Render, Effects]) evs)"

text \<open>The component after its first render.\<close>

definition sb_mounted :: sidebar where
  "sb_mounted = flush sb_init"

text \<open>
  The component is at rest when a further commit would do nothing: the ref holds the state
  and every effect has run for the current dependencies.
\<close>

definition at_rest :: "sidebar \<Rightarrow> bool" where
  "at_rest s \<longleftrightarrow>
     escalationStateRef s = escalationState s \<and>
     resetDeps s = Some (conversationId s) \<and>
     metricsDeps s = Some (conversationId s) \<and>
     k2Deps s = Some (conversationId s, escalationState s)"

text \<open>The timers that the mounted effect runs own.\<close>

definition expected_timers :: "sidebar \<Rightarrow> (timer \<times> nat) set" where
  "expected_timers s =
     (case metricsMounted s of
        None \<Rightarrow> {}
      | Some g \<Rightarrow> {(MetricsInterval g, METRICS_POLL_INTERVAL)}) \<union>
     (case k2Mounted s of
        None \<Rightarrow> {}
      | Some g \<Rightarrow> {(K2Interval g, K2_POLL_INTERVAL), (K2Timeout g, K2_TIMEOUT)})"

text \<open>
  What holds between callbacks in the schedule that commits at once (\<open>sb_inv_run\<close> below):
  the component is at rest, the reset
  effect has seen the current conversation, metrics polling is mounted exactly when there is
  a conversation, K2 polling is mounted exactly in \<open>escalated_pending\<close>, and the installed
  timers are those of the mounted runs, which are older than the next run.
\<close>

definition sb_inv :: "sidebar \<Rightarrow> bool" where
  "sb_inv s \<longleftrightarrow>
     at_rest s \<and>
     prevConversationIdRef s = conversationId s \<and>
     (metricsMounted s = None \<longleftrightarrow> conversationId s = []) \<and>
     (k2Mounted s = None \<longleftrightarrow> escalationState s \<noteq> escalated_pending) \<and>
     (escalationState s = escalated_pending \<longrightarrow> conversationId s \<noteq> []) \<and>
     set (timers s) = expected_timers s \<and>
     (\<forall>g. metricsMounted s = Some g \<longrightarrow> g < nextRun s) \<and>
     (\<forall>g. k2Mounted s = Some g \<longrightarrow> g < nextRun s)"

text \<open>Two states that differ in nothing the effects depend on.\<close>

definition same_control :: "sidebar \<Rightarrow> sidebar \<Rightarrow> bool" where
  "same_control h s \<longleftrightarrow>
     conversationId h = conversationId s \<and> prevConversationIdRef h = prevConversationIdRef s \<and>
     resetDeps h = resetDeps s \<and> metricsDeps h = metricsDeps s \<and> k2Deps h = k2Deps s \<and>
     metricsMounted h = metricsMounted s \<and> k2Mounted h = k2Mounted s \<and> nextRun h = nextRun s"

text \<open>A response that carries no data, and one that reports an escalation.\<close>

definition failed_fetch :: "'a response \<Rightarrow> bool" where
  "failed_fetch res = (case res of Ok data \<Rightarrow> False | _ \<Rightarrow> True)"

definition reports_escalation :: "MetricsResponse response \<Rightarrow> bool" where
  "reports_escalation res = (case res of Ok data \<Rightarrow> escalated data | _ \<Rightarrow> False)"

text \<open>
  The number of steps from \<open>idle\<close> to \<open>escalated_pending\<close> in a list of escalation states.
\<close>

fun triggers :: "EscalationState list \<Rightarrow> nat" where
  "triggers (a # b # xs) =
     (if a = idle \<and> b = escalated_pending then 1 else 0) + triggers (b # xs)"
| "triggers xs = 0"

text \<open>A tab event.\<close>

definition is_tab :: "sb_event \<Rightarrow> bool" where
  "is_tab e = (case e of TabUrl url \<Rightarrow> True | _ \<Rightarrow> False)"

text \<open>
  The effect phase in a state \<open>s\<close> for a render that read \<open>cid\<close> and \<open>es\<close>: whether the reset
  effect sets the state, and whether a metrics run and a K2 run are started.
\<close>

definition resets :: "string \<Rightarrow> sidebar \<Rightarrow> bool" where
  "resets cid s \<longleftrightarrow> resetDeps s \<noteq> Some cid \<and> cid \<noteq> [] \<and> cid \<noteq> prevConversationIdRef s"

definition metrics_starts :: "string \<Rightarrow> sidebar \<Rightarrow> bool" where
  "metrics_starts cid s \<longleftrightarrow> metricsDeps s \<noteq> Some cid \<and> cid \<noteq> []"

definition k2_starts :: "string \<Rightarrow> EscalationState \<Rightarrow> sidebar \<Rightarrow> bool" where
  "k2_starts cid es s \<longleftrightarrow> k2Deps s \<noteq> Some (cid, es) \<and> cid \<noteq> [] \<and> es = escalated_pending"

text \<open>
  What holds of the root under every schedule (\<open>root_inv_reachable\<close> below). The installed
  timers belong to the mounted runs, which are older than the next run and have their
  interval installed (a time-out is gone once it has fired). A run is mounted exactly when
  the last effect phase ran for a conversation, and for the K2 run in \<open>escalated_pending\<close>.
  Before the first effect phase nothing is mounted and the state is \<open>idle\<close>. The state
  variable is \<open>escalated_pending\<close> only when the last render showed \<open>idle\<close> or
  \<open>escalated_pending\<close>. Without a conversation there is no escalation. A render that waits
  for its effect phase read the state that the ref holds, and when no render waits, the
  K2 effect has run for the state that the ref holds.
\<close>

definition timers_ok :: "sidebar \<Rightarrow> bool" where
  "timers_ok s \<longleftrightarrow>
     set (timers s) \<subseteq> expected_timers s \<and>
     (\<forall>g. metricsMounted s = Some g \<longrightarrow>
        g < nextRun s \<and> (MetricsInterval g, METRICS_POLL_INTERVAL) \<in> set (timers s)) \<and>
     (\<forall>g. k2Mounted s = Some g \<longrightarrow>
        g < nextRun s \<and> (K2Interval g, K2_POLL_INTERVAL) \<in> set (timers s))"

definition deps_ok :: "sidebar \<Rightarrow> bool" where
  "deps_ok s \<longleftrightarrow>
     (metricsMounted s \<noteq> None \<longleftrightarrow> (\<exists>c. c \<noteq> [] \<and> metricsDeps s = Some c)) \<and>
     (k2Mounted s \<noteq> None \<longleftrightarrow> (\<exists>c. c \<noteq> [] \<and> k2Deps s = Some (c, escalated_pending)))"

definition fresh_ok :: "sidebar \<Rightarrow> bool" where
  "fresh_ok s \<longleftrightarrow>
     (k2Deps s = None \<longrightarrow>
        metricsDeps s = None \<and> escalationState s = idle \<and> escalationStateRef s = idle)"

definition edge_ok :: "sidebar \<Rightarrow> bool" where
  "edge_ok s \<longleftrightarrow>
     (escalationState s = escalated_pending \<longrightarrow>
        escalationStateRef s = idle \<or> escalationStateRef s = escalated_pending)"

definition conv_ok :: "root \<Rightarrow> bool" where
  "conv_ok d \<longleftrightarrow>
     (conversationId (sidebar_of d) = [] \<longrightarrow>
        escalationState (sidebar_of d) \<noteq> escalated_pending \<and>
        metricsClosure (sidebar_of d) = [] \<and>
        (\<forall>r. pendingPassive d = Some r \<longrightarrow> fst r = []))"

definition passive_ok :: "root \<Rightarrow> bool" where
  "passive_ok d \<longleftrightarrow>
     (\<forall>r. pendingPassive d = Some r \<longrightarrow>
        snd r = escalationStateRef (sidebar_of d) \<and> (snd r = escalated_pending \<longrightarrow> fst r \<noteq> []))"

definition flushed_ok :: "root \<Rightarrow> bool" where
  "flushed_ok d \<longleftrightarrow>
     (pendingPassive d = None \<longrightarrow>
        (\<forall>r. k2Deps (sidebar_of d) = Some r \<longrightarrow>
           snd r = escalationStateRef (sidebar_of d) \<and> (snd r = escalated_pending \<longrightarrow> fst r \<noteq> [])))"

definition root_inv :: "root \<Rightarrow> bool" where
  "root_inv d \<longleftrightarrow>
     timers_ok (sidebar_of d) \<and> deps_ok (sidebar_of d) \<and> fresh_ok (sidebar_of d) \<and>
     edge_ok (sidebar_of d) \<and> conv_ok d \<and> passive_ok d \<and> flushed_ok d"

text \<open>
  A task that is a tab event; a root on which no conversation change is under way (the
  reset effect and the metrics effect have run for the conversation of the state variable,
  and so has a render that waits for its effect phase); such a root that is idle with no
  render waiting; and what holds of a root as long as no tab event arrives: in a rendered
  \<open>idle\<close> no K2 run is mounted and the state variable is \<open>idle\<close> or \<open>escalated_pending\<close>, and once
  the rendered state has left \<open>idle\<close> the state variable is not \<open>idle\<close> either.
\<close>

definition is_tab_task :: "task \<Rightarrow> bool" where
  "is_tab_task t = (case t of Callback e \<Rightarrow> is_tab e | _ \<Rightarrow> False)"

definition settled :: "root \<Rightarrow> bool" where
  "settled d \<longleftrightarrow>
     conversationId (sidebar_of d) \<noteq> [] \<and>
     resetDeps (sidebar_of d) = Some (conversationId (sidebar_of d)) \<and>
     metricsDeps (sidebar_of d) = Some (conversationId (sidebar_of d)) \<and>
     (\<forall>r. pendingPassive d = Some r \<longrightarrow> fst r = conversationId (sidebar_of d))"

definition at_idle :: "root \<Rightarrow> bool" where
  "at_idle d \<longleftrightarrow>
     settled d \<and> pendingPassive d = None \<and> rendered d = idle \<and>
     escalationState (sidebar_of d) = idle"

definition watching :: "root \<Rightarrow> bool" where
  "watching d \<longleftrightarrow>
     settled d \<and> root_inv d \<and>
     (rendered d = idle \<longrightarrow>
        k2Mounted (sidebar_of d) = None \<and>
        (escalationState (sidebar_of d) = idle \<or> escalationState (sidebar_of d) = escalated_pending)) \<and>
     (rendered d \<noteq> idle \<longrightarrow> escalationState (sidebar_of d) \<noteq> idle)"

text \<open>
  A root that has settled in state \<open>x\<close> with explanation \<open>expl\<close>: rendered, no K2 run mounted,
  no conversation change under way.
\<close>

definition closed_with :: "EscalationState \<Rightarrow> string \<Rightarrow> root \<Rightarrow> bool" where
  "closed_with x expl d \<longleftrightarrow>
     escalationState (sidebar_of d) = x \<and> rendered d = x \<and>
     k2Explanation (sidebar_of d) = expl \<and>
     k2Mounted (sidebar_of d) = None \<and>
     resetDeps (sidebar_of d) = Some (conversationId (sidebar_of d)) \<and>
     (\<forall>r. pendingPassive d = Some r \<longrightarrow> fst r = conversationId (sidebar_of d))"

text \<open>Responses and page addresses for the examples.\<close>

definition metrics_sample :: "real \<Rightarrow> real \<Rightarrow> MetricsResponse" where
  "metrics_sample d n =
     \<lparr>drift = Some \<lparr>cumulative_drift_score = d, drift_velocity = 0, turns_since_last_drift = 0,
                    total_drift_events = 0, is_recovering = False\<rparr>,
      commitments = None, contradictions_m = None,
      escalation = Some \<lparr>total_escalations = n, escalation_rate = 0\<rparr>\<rparr>"

definition metrics_calm :: MetricsResponse where
  "metrics_calm = metrics_sample 0 0"

definition metrics_one :: MetricsResponse where
  "metrics_one = metrics_sample 1.8 1"

definition metrics_two :: MetricsResponse where
  "metrics_two = metrics_sample 1.8 2"

definition k2_sample :: "string option \<Rightarrow> string option \<Rightarrow> K2StatusResponse" where
  "k2_sample st rt =
     \<lparr>conversation_id = ''abc'', escalation_active = True, status = st, result_type = rt,
      reason = None, k2_confidence = Some 0.91, k2_explanation = None, timestamp = None\<rparr>"

definition url_abc :: string where
  "url_abc = ''https://chatgpt.com/c/abc''"


text \<open>
  The sidebar on conversation \<open>abc\<close>: after the first tab event (\<open>panel_idle\<close>), after a
  metrics poll that reports drift 1.8 and one escalation (\<open>panel_pending\<close>), and after the
  timeout of the verification (\<open>panel_timed_out\<close>).
\<close>

definition panel_idle :: sidebar where
  "panel_idle =
     \<lparr>conversationId = ''abc'', driftScore = 0, driftVelocity = 0, isRecovering = False,
      activeCommitments = 0, contradictions = 0, escalationState = idle,
      escalationReason = [], k2Confidence = 0, k2Explanation = [],
      escalationStartTimeRef = 0, escalationStateRef = idle, prevConversationIdRef = ''abc'',
      resetDeps = Some ''abc'', metricsDeps = Some ''abc'', k2Deps = Some (''abc'', idle),
      metricsMounted = Some 0, k2Mounted = None,
      timers = [(MetricsInterval 0, 1500)], nextRun = 1,
      requests = [(0, GetMetrics ''abc'')]\<rparr>"

definition panel_pending :: sidebar where
  "panel_pending =
     \<lparr>conversationId = ''abc'', driftScore = 1.8, driftVelocity = 0, isRecovering = False,
      activeCommitments = 0, contradictions = 0, escalationState = escalated_pending,
      escalationReason = ''Cumulative Drift > Threshold'', k2Confidence = 0, k2Explanation = [],
      escalationStartTimeRef = 1500, escalationStateRef = escalated_pending,
      prevConversationIdRef = ''abc'',
      resetDeps = Some ''abc'', metricsDeps = Some ''abc'',
      k2Deps = Some (''abc'', escalated_pending),
      metricsMounted = Some 0, k2Mounted = Some 1,
      timers = [(MetricsInterval 0, 1500), (K2Interval 1, 2000), (K2Timeout 1, 90000)],
      nextRun = 2,
      requests = [(0, GetMetrics ''abc''), (1, GetK2Status ''abc'')]\<rparr>"

definition panel_timed_out :: sidebar where
  "panel_timed_out =
     \<lparr>conversationId = ''abc'', driftScore = 1.8, driftVelocity = 0, isRecovering = False,
      activeCommitments = 0, contradictions = 0, escalationState = k2_failed,
      escalationReason = ''Cumulative Drift > Threshold'', k2Confidence = 0,
      k2Explanation = ''K2 reasoning timed out. Heuristic result retained.'',
      escalationStartTimeRef = 1500, escalationStateRef = k2_failed,
      prevConversationIdRef = ''abc'',
      resetDeps = Some ''abc'', metricsDeps = Some ''abc'',
      k2Deps = Some (''abc'', k2_failed),
      metricsMounted = Some 0, k2Mounted = None,
      timers = [(MetricsInterval 0, 1500)],
      nextRun = 2,
      requests = [(0, GetMetrics ''abc''), (1, GetK2Status ''abc'')]\<rparr>"

text \<open>
  The same for the root. \<open>mount_abc\<close> is the first render of the component, its effect
  phase, the tab event that delivers the page of conversation \<open>abc\<close>, and the render and
  effect phase that follow; \<open>escalate_abc\<close> goes on with a metrics poll that reports an
  escalation, rendered and with its effect phase run. \<open>stream_abc\<close> delivers polls that
  report 0, 0, 1, 1 and 2 escalations, the two that report 1 with no render in between.
\<close>

definition root_idle :: root where
  "root_idle = \<lparr>sidebar_of = panel_idle, pendingPassive = None\<rparr>"

definition root_pending :: root where
  "root_pending = \<lparr>sidebar_of = panel_pending, pendingPassive = None\<rparr>"

definition mount_abc :: "task list" where
  "mount_abc = [Render, Effects, Callback (TabUrl url_abc), Render, Effects]"

definition escalate_abc :: "task list" where
  "escalate_abc = mount_abc @ [Callback (MetricsArrived 0 1500 (Ok metrics_one)), Render, Effects]"

definition stream_abc :: "task list" where
  "stream_abc =
     [Callback (MetricsArrived 0 1500 (Ok metrics_calm)),
      Callback (MetricsArrived 0 3000 (Ok metrics_calm)),
      Callback (MetricsArrived 0 4500 (Ok metrics_one)),
      Callback (MetricsArrived 0 6000 (Ok metrics_one)),
      Render, Effects,
      Callback (MetricsArrived 0 7500 (Ok metrics_two)),
      Render, Effects]"

definition k2_confirmed_sample :: K2StatusResponse where
  "k2_confirmed_sample = k2_sample (Some ''completed'') (Some ''confirmed'')"

definition k2_failed_sample :: K2StatusResponse where
  "k2_failed_sample = k2_sample (Some ''failed'') None"

definition root_timed_out :: root where
  "root_timed_out = \<lparr>sidebar_of = panel_timed_out, pendingPassive = None\<rparr>"

section \<open>The two components side by side\<close>






section \<open>Properties of the delivery queue\<close>

subsection \<open>Single tasks\<close>

lemma run_Nil: "run s [] = s"
  by (simp add: run_def)


lemma run_append: "run s (evs @ evs') = run (run s evs) evs'"
  by (simp add: run_def)

lemma handleNewTurns_idle:
  assumes "processingQueues s c = None"
  shows "handleNewTurns c turns s =
     s\<lparr>promises := promises s @ [\<lparr>convId = c, phase = Chained turns, reactions = []\<rparr>],
       microtasks := microtasks s @ [RunCallback (length (promises s))],
       processingQueues := (processingQueues s)(c \<mapsto> length (promises s))\<rparr>"
  using assms by (simp add: handleNewTurns_def Let_def)




lemma step_first_batch:
  assumes idle: "processingQueues s c = None" and q: "microtasks s = []"
  shows "step (NewTurns c (t # rest)) s =
     s\<lparr>promises := promises s @ [\<lparr>convId = c, phase = Fetching t 0 rest, reactions = []\<rparr>],
       processingQueues := (processingQueues s)(c \<mapsto> length (promises s)),
       trace := trace s @ [FetchIssued c t 0]\<rparr>"
proof -
  let ?n = "length (promises s)"
  let ?h = "handleNewTurns c (t # rest) s"
  have h: "?h =
     s\<lparr>promises := promises s @ [\<lparr>convId = c, phase = Chained (t # rest), reactions = []\<rparr>],
       microtasks := [RunCallback ?n],
       processingQueues := (processingQueues s)(c \<mapsto> ?n)\<rparr>"
    using handleNewTurns_idle [OF idle, of "t # rest"] q by simp
  have m: "microtasks ?h = [RunCallback ?n]"
    by (simp add: h)
  have r: "run_microtask (RunCallback ?n) (?h\<lparr>microtasks := []\<rparr>) =
     s\<lparr>promises := promises s @ [\<lparr>convId = c, phase = Fetching t 0 rest, reactions = []\<rparr>],
       processingQueues := (processingQueues s)(c \<mapsto> ?n),
       trace := trace s @ [FetchIssued c t 0]\<rparr>"
    using q by (simp add: h run_microtask_def loop_next_def analyzeTurn_def set_phase_def emit_def)
  have "drain ?h = run_microtask (RunCallback ?n) (?h\<lparr>microtasks := []\<rparr>)"
    using drain_Cons [OF m] drain_Nil [of "run_microtask (RunCallback ?n) (?h\<lparr>microtasks := []\<rparr>)"]
      q
    by (simp add: r)
  then show ?thesis
    by (simp add: step_def handle_event_def r)
qed





subsection \<open>The invariant of the store\<close>

lemma entries_lastD:
  assumes "bg_inv s" "processingQueues s c = Some p"
  shows "p < length (promises s)" and "convId (promises s ! p) = c"
    and "p < k \<Longrightarrow> k < length (promises s) \<Longrightarrow> convId (promises s ! k) \<noteq> c"
  using assms unfolding bg_inv_def entries_last_def by blast+

lemma absent_settledD:
  assumes "bg_inv s" "processingQueues s c = None" "j < length (promises s)"
    "convId (promises s ! j) = c"
  shows "phase (promises s ! j) = Settled"
  using assms unfolding bg_inv_def absent_settled_def by blast

lemma later_parkedD:
  assumes "bg_inv s" "j < length (promises s)" "phase (promises s ! j) \<noteq> Settled"
  shows "parked_after s j"
  using assms unfolding bg_inv_def later_parked_def by blast

lemma queue_validD:
  assumes "bg_inv s"
  shows "RunCallback j \<in> set (microtasks s) \<Longrightarrow> j < length (promises s)"
    and "Cleanup j \<in> set (microtasks s) \<Longrightarrow> j < length (promises s)"
    and "Cleanup j \<in> set (microtasks s) \<Longrightarrow> phase (promises s ! j) = Settled"
  using assms unfolding bg_inv_def queue_valid_def by blast+

lemma reactions_nextD:
  assumes "bg_inv s" "j < length (promises s)" "k \<in> set (reactions (promises s ! j))"
  shows "j < k" and "k < length (promises s)"
    and "convId (promises s ! k) = convId (promises s ! j)"
    and "j < i \<Longrightarrow> i < k \<Longrightarrow> convId (promises s ! i) \<noteq> convId (promises s ! j)"
  using assms unfolding bg_inv_def reactions_next_def by blast+

lemma parked_afterD:
  assumes "parked_after s j" "j < k" "k < length (promises s)"
    "convId (promises s ! k) = convId (promises s ! j)"
  shows "is_chained (phase (promises s ! k))" and "RunCallback k \<notin> set (microtasks s)"
  using assms unfolding parked_after_def by blast+

text \<open>A promise that runs, or whose callback is queued, is the first of its conversation that is not settled.\<close>

lemma runner_first:
  assumes inv: "bg_inv s" and j: "j < length (promises s)"
    and r: "\<not> is_chained (phase (promises s ! j)) \<or> RunCallback j \<in> set (microtasks s)"
  shows "settled_before s j"
  unfolding settled_before_def
proof (intro allI impI)
  fix i
  assume i: "i < j" and c: "convId (promises s ! i) = convId (promises s ! j)"
  show "phase (promises s ! i) = Settled"
  proof (rule ccontr)
    assume n: "phase (promises s ! i) \<noteq> Settled"
    from i j have "i < length (promises s)" by simp
    from later_parkedD [OF inv this n] have "parked_after s i" .
    from parked_afterD [OF this i j c [symmetric]] r show False by blast
  qed
qed

lemma bg_invI:
  assumes "entries_last s" "absent_settled s" "later_parked s" "queue_valid s" "reactions_next s"
  shows "bg_inv s"
  using assms by (simp add: bg_inv_def)

lemma parked_afterI:
  assumes "\<And>k. j < k \<Longrightarrow> k < length (promises s) \<Longrightarrow>
             convId (promises s ! k) = convId (promises s ! j) \<Longrightarrow>
             is_chained (phase (promises s ! k)) \<and> RunCallback k \<notin> set (microtasks s)"
  shows "parked_after s j"
  using assms unfolding parked_after_def by blast

lemma settled_beforeD:
  assumes "settled_before s j" "i < j" "convId (promises s ! i) = convId (promises s ! j)"
  shows "phase (promises s ! i) = Settled"
  using assms unfolding settled_before_def by blast

text \<open>The callback of promise \<open>j\<close> moves on without settling.\<close>

lemma inv_phase:
  assumes inv: "bg_inv s" and j: "j < length (promises s)"
    and ns: "phase (promises s ! j) \<noteq> Settled" and first: "settled_before s j"
    and ph: "ph \<noteq> Settled"
    and ps: "promises s' = (promises s)[j := (promises s ! j)\<lparr>phase := ph\<rparr>]"
    and mt: "microtasks s' = microtasks s"
    and pq: "processingQueues s' = processingQueues s"
  shows "bg_inv s'"
proof (rule bg_invI)
  have len: "length (promises s') = length (promises s)"
    by (simp add: ps)
  have cv: "convId (promises s' ! k) = convId (promises s ! k)"
    and re: "reactions (promises s' ! k) = reactions (promises s ! k)"
    and phk: "phase (promises s' ! k) = (if k = j then ph else phase (promises s ! k))"
    if "k < length (promises s)" for k
    using that j by (auto simp: ps nth_list_update)
  show "entries_last s'"
    unfolding entries_last_def len pq
  proof (intro allI impI)
    fix c p
    assume e: "processingQueues s c = Some p"
    note d = entries_lastD [OF inv e]
    show "p < length (promises s) \<and> convId (promises s' ! p) = c \<and>
        (\<forall>k. p < k \<and> k < length (promises s) \<longrightarrow> convId (promises s' ! k) \<noteq> c)"
      using d by (simp add: cv)
  qed
  show "absent_settled s'"
    unfolding absent_settled_def len pq
  proof (intro allI impI)
    fix c k
    assume e: "processingQueues s c = None" and k: "k < length (promises s)"
      and c: "convId (promises s' ! k) = c"
    from absent_settledD [OF inv e k] c k have "phase (promises s ! k) = Settled"
      by (simp add: cv)
    with ns k show "phase (promises s' ! k) = Settled"
      by (auto simp: phk)
  qed
  show "later_parked s'"
    unfolding later_parked_def len
  proof (intro allI impI)
    fix i
    assume i: "i < length (promises s)" and n: "phase (promises s' ! i) \<noteq> Settled"
    from n i ns have n0: "phase (promises s ! i) \<noteq> Settled"
      by (auto simp: phk split: if_splits)
    note pa = later_parkedD [OF inv i n0]
    show "parked_after s' i"
    proof (rule parked_afterI)
      fix k
      assume k: "i < k" "k < length (promises s')" "convId (promises s' ! k) = convId (promises s' ! i)"
      then have k': "k < length (promises s)" "convId (promises s ! k) = convId (promises s ! i)"
        using i by (simp_all add: len cv)
      have "k \<noteq> j"
      proof
        assume "k = j"
        with settled_beforeD [OF first, of i] k(1) k'(2) n0 show False by simp
      qed
      with parked_afterD [OF pa k(1) k'] k'(1)
      show "is_chained (phase (promises s' ! k)) \<and> RunCallback k \<notin> set (microtasks s')"
        by (simp add: phk mt)
    qed
  qed
  show "queue_valid s'"
    unfolding queue_valid_def len mt
  proof (intro conjI allI impI)
    fix k
    assume "RunCallback k \<in> set (microtasks s)"
    then show "k < length (promises s)" by (rule queue_validD(1) [OF inv])
  next
    fix k
    assume c: "Cleanup k \<in> set (microtasks s)"
    then show "k < length (promises s)" by (rule queue_validD(2) [OF inv])
    from queue_validD(2,3) [OF inv c] ns show "phase (promises s' ! k) = Settled"
      by (auto simp: phk)
  qed
  show "reactions_next s'"
    unfolding reactions_next_def len
  proof (intro allI impI ballI)
    fix i k
    assume i: "i < length (promises s)" and k: "k \<in> set (reactions (promises s' ! i))"
    then have k0: "k \<in> set (reactions (promises s ! i))"
      by (simp add: re)
    note d = reactions_nextD [OF inv i k0]
    show "i < k \<and> k < length (promises s) \<and> convId (promises s' ! k) = convId (promises s' ! i) \<and>
        (\<forall>l. i < l \<and> l < k \<longrightarrow> convId (promises s' ! l) \<noteq> convId (promises s' ! i))"
      using d i by (simp add: cv)
  qed
qed

text \<open>The callback of promise \<open>j\<close> returns.\<close>

lemma inv_settle:
  assumes inv: "bg_inv s" and j: "j < length (promises s)"
    and ns: "phase (promises s ! j) \<noteq> Settled" and first: "settled_before s j"
    and ps: "promises s' = (promises s)[j := (promises s ! j)\<lparr>phase := Settled, reactions := []\<rparr>]"
    and mt: "microtasks s' =
               microtasks s @ Cleanup j # map RunCallback (reactions (promises s ! j))"
    and pq: "processingQueues s' = processingQueues s"
  shows "bg_inv s'"
proof (rule bg_invI)
  have len: "length (promises s') = length (promises s)"
    by (simp add: ps)
  have cv: "convId (promises s' ! k) = convId (promises s ! k)"
    and re: "reactions (promises s' ! k) = (if k = j then [] else reactions (promises s ! k))"
    and phk: "phase (promises s' ! k) = (if k = j then Settled else phase (promises s ! k))"
    if "k < length (promises s)" for k
    using that j by (auto simp: ps nth_list_update)
  have queued: "RunCallback k \<in> set (microtasks s') \<longleftrightarrow>
      RunCallback k \<in> set (microtasks s) \<or> k \<in> set (reactions (promises s ! j))" for k
    by (auto simp: mt)
  have cleanups: "Cleanup k \<in> set (microtasks s') \<longleftrightarrow>
      Cleanup k \<in> set (microtasks s) \<or> k = j" for k
    by (auto simp: mt)
  show "entries_last s'"
    unfolding entries_last_def len pq
  proof (intro allI impI)
    fix c p
    assume e: "processingQueues s c = Some p"
    note d = entries_lastD [OF inv e]
    show "p < length (promises s) \<and> convId (promises s' ! p) = c \<and>
        (\<forall>k. p < k \<and> k < length (promises s) \<longrightarrow> convId (promises s' ! k) \<noteq> c)"
      using d by (simp add: cv)
  qed
  show "absent_settled s'"
    unfolding absent_settled_def len pq
  proof (intro allI impI)
    fix c k
    assume e: "processingQueues s c = None" and k: "k < length (promises s)"
      and c: "convId (promises s' ! k) = c"
    from absent_settledD [OF inv e k] c k have "phase (promises s ! k) = Settled"
      by (simp add: cv)
    with k show "phase (promises s' ! k) = Settled"
      by (simp add: phk)
  qed
  show "later_parked s'"
    unfolding later_parked_def len
  proof (intro allI impI)
    fix i
    assume i: "i < length (promises s)" and n: "phase (promises s' ! i) \<noteq> Settled"
    from n i have ij: "i \<noteq> j" and n0: "phase (promises s ! i) \<noteq> Settled"
      by (auto simp: phk split: if_splits)
    note pa = later_parkedD [OF inv i n0]
    show "parked_after s' i"
    proof (rule parked_afterI)
      fix k
      assume k: "i < k" "k < length (promises s')" "convId (promises s' ! k) = convId (promises s' ! i)"
      then have k': "k < length (promises s)" "convId (promises s ! k) = convId (promises s ! i)"
        using i by (simp_all add: len cv)
      have kj: "k \<noteq> j"
      proof
        assume "k = j"
        with settled_beforeD [OF first, of i] k(1) k'(2) n0 show False by simp
      qed
      have "k \<notin> set (reactions (promises s ! j))"
      proof
        assume r: "k \<in> set (reactions (promises s ! j))"
        note d = reactions_nextD [OF inv j r]
        from d(3) k'(2) have c: "convId (promises s ! i) = convId (promises s ! j)"
          by simp
        consider "i < j" | "j < i"
          using ij by linarith
        then show False
        proof cases
          case 1
          with settled_beforeD [OF first 1 c] n0 show False by simp
        next
          case 2
          with d(4) [OF 2 k(1)] c show False by simp
        qed
      qed
      with parked_afterD [OF pa k(1) k'] k'(1) kj
      show "is_chained (phase (promises s' ! k)) \<and> RunCallback k \<notin> set (microtasks s')"
        by (simp add: phk queued)
    qed
  qed
  show "queue_valid s'"
    unfolding queue_valid_def len
  proof (intro conjI allI impI)
    fix k
    assume "RunCallback k \<in> set (microtasks s')"
    then consider "RunCallback k \<in> set (microtasks s)" | "k \<in> set (reactions (promises s ! j))"
      by (auto simp: queued)
    then show "k < length (promises s)"
    proof cases
      case 1
      then show ?thesis by (rule queue_validD(1) [OF inv])
    next
      case 2
      then show ?thesis by (rule reactions_nextD(2) [OF inv j])
    qed
  next
    fix k
    assume c: "Cleanup k \<in> set (microtasks s')"
    then consider "Cleanup k \<in> set (microtasks s)" | "k = j"
      by (auto simp: cleanups)
    then show "k < length (promises s)"
      using j by cases (auto intro: queue_validD(2) [OF inv])
    from c consider "Cleanup k \<in> set (microtasks s)" | "k = j"
      by (auto simp: cleanups)
    then show "phase (promises s' ! k) = Settled"
    proof cases
      case 1
      from queue_validD(2,3) [OF inv 1] show ?thesis by (simp add: phk)
    next
      case 2
      with j show ?thesis by (simp add: phk)
    qed
  qed
  show "reactions_next s'"
    unfolding reactions_next_def len
  proof (intro allI impI ballI)
    fix i k
    assume i: "i < length (promises s)" and k: "k \<in> set (reactions (promises s' ! i))"
    then have k0: "k \<in> set (reactions (promises s ! i))"
      by (auto simp: re split: if_splits)
    note d = reactions_nextD [OF inv i k0]
    show "i < k \<and> k < length (promises s) \<and> convId (promises s' ! k) = convId (promises s' ! i) \<and>
        (\<forall>l. i < l \<and> l < k \<longrightarrow> convId (promises s' ! l) \<noteq> convId (promises s' ! i))"
      using d i by (simp add: cv)
  qed
qed

text \<open>A reaction is taken from the queue.\<close>

lemma inv_pop:
  assumes inv: "bg_inv s" and ps: "promises s' = promises s"
    and mt: "set (microtasks s') \<subseteq> set (microtasks s)"
    and pq: "processingQueues s' = processingQueues s"
  shows "bg_inv s'"
proof (rule bg_invI)
  from inv have "entries_last s" by (simp add: bg_inv_def)
  then show "entries_last s'"
    unfolding entries_last_def ps pq .
  from inv have "absent_settled s" by (simp add: bg_inv_def)
  then show "absent_settled s'"
    unfolding absent_settled_def ps pq .
  show "later_parked s'"
    unfolding later_parked_def ps
  proof (intro allI impI)
    fix i
    assume i: "i < length (promises s)" and n: "phase (promises s ! i) \<noteq> Settled"
    from later_parkedD [OF inv i n] mt show "parked_after s' i"
      unfolding parked_after_def ps by blast
  qed
  show "queue_valid s'"
    unfolding queue_valid_def ps
  proof (intro conjI allI impI)
    fix k
    assume "RunCallback k \<in> set (microtasks s')"
    with mt have "RunCallback k \<in> set (microtasks s)" by (rule subsetD)
    then show "k < length (promises s)" by (rule queue_validD(1) [OF inv])
  next
    fix k
    assume "Cleanup k \<in> set (microtasks s')"
    with mt have c: "Cleanup k \<in> set (microtasks s)" by (rule subsetD)
    then show "k < length (promises s)" by (rule queue_validD(2) [OF inv])
    from c show "phase (promises s ! k) = Settled" by (rule queue_validD(3) [OF inv])
  qed
  from inv have "reactions_next s" by (simp add: bg_inv_def)
  then show "reactions_next s'"
    unfolding reactions_next_def ps .
qed

text \<open>The clean-up of a settled promise that is still the entry of its conversation.\<close>

lemma inv_cleanup:
  assumes inv: "bg_inv s" and j: "j < length (promises s)"
    and st: "phase (promises s ! j) = Settled"
    and e: "processingQueues s (convId (promises s ! j)) = Some j"
    and ps: "promises s' = promises s"
    and mt: "microtasks s' = microtasks s"
    and pq: "processingQueues s' = (processingQueues s)(convId (promises s ! j) := None)"
  shows "bg_inv s'"
proof (rule bg_invI)
  show "entries_last s'"
    unfolding entries_last_def ps
  proof (intro allI impI)
    fix c p
    assume "processingQueues s' c = Some p"
    then have "processingQueues s c = Some p"
      by (simp add: pq split: if_splits)
    from entries_lastD [OF inv this]
    show "p < length (promises s) \<and> convId (promises s ! p) = c \<and>
        (\<forall>k. p < k \<and> k < length (promises s) \<longrightarrow> convId (promises s ! k) \<noteq> c)"
      by blast
  qed
  show "absent_settled s'"
    unfolding absent_settled_def ps
  proof (intro allI impI)
    fix c k
    assume n: "processingQueues s' c = None" and k: "k < length (promises s)"
      and c: "convId (promises s ! k) = c"
    show "phase (promises s ! k) = Settled"
    proof (cases "c = convId (promises s ! j)")
      case False
      with n have "processingQueues s c = None" by (simp add: pq)
      from absent_settledD [OF inv this k c] show ?thesis .
    next
      case True
      have "\<not> j < k"
        using entries_lastD(3) [OF inv e, of k] k c True by auto
      then consider "k = j" | "k < j" by linarith
      then show ?thesis
      proof cases
        case 1
        with st show ?thesis by simp
      next
        case 2
        show ?thesis
        proof (rule ccontr)
          assume "phase (promises s ! k) \<noteq> Settled"
          from later_parkedD [OF inv k this] have "parked_after s k" .
          from parked_afterD(1) [OF this 2 j] c True st show False
            by (simp add: is_chained_def)
        qed
      qed
    qed
  qed
  from inv have "later_parked s" by (simp add: bg_inv_def)
  then show "later_parked s'"
    unfolding later_parked_def parked_after_def ps mt .
  from inv have "queue_valid s" by (simp add: bg_inv_def)
  then show "queue_valid s'"
    unfolding queue_valid_def ps mt .
  from inv have "reactions_next s" by (simp add: bg_inv_def)
  then show "reactions_next s'"
    unfolding reactions_next_def ps .
qed

text \<open>A new batch is chained.\<close>

lemma all_settled_at_settled_entry:
  assumes inv: "bg_inv s"
    and e: "processingQueues s c = None \<or>
            (\<exists>p. processingQueues s c = Some p \<and> phase (promises s ! p) = Settled)"
    and i: "i < length (promises s)" "convId (promises s ! i) = c"
  shows "phase (promises s ! i) = Settled"
proof (cases "processingQueues s c")
  case None
  from absent_settledD [OF inv None i] show ?thesis .
next
  case (Some p)
  with e have st: "phase (promises s ! p) = Settled" by simp
  note d = entries_lastD [OF inv Some]
  have "\<not> p < i"
    using d(3) [of i] i by auto
  then consider "i = p" | "i < p" by linarith
  then show ?thesis
  proof cases
    case 1
    with st show ?thesis by simp
  next
    case 2
    show ?thesis
    proof (rule ccontr)
      assume "phase (promises s ! i) \<noteq> Settled"
      from later_parkedD [OF inv i(1) this] have "parked_after s i" .
      from parked_afterD(1) [OF this 2 d(1)] d(2) i(2) st show False
        by (simp add: is_chained_def)
    qed
  qed
qed

lemma inv_handleNewTurns:
  assumes inv: "bg_inv s"
  shows "bg_inv (handleNewTurns c turns s)"
proof -
  let ?n = "length (promises s)"
  let ?new = "\<lparr>convId = c, phase = Chained turns, reactions = []\<rparr>"
  let ?s' = "handleNewTurns c turns s"
  let ?pending = "\<exists>p. processingQueues s c = Some p \<and> phase (promises s ! p) \<noteq> Settled"
  have pq: "processingQueues ?s' = (processingQueues s)(c \<mapsto> ?n)"
    by (simp add: handleNewTurns_def Let_def split: option.splits)
  have len: "length (promises ?s') = Suc ?n"
    by (simp add: handleNewTurns_def Let_def split: option.splits)
  have last: "promises ?s' ! ?n = ?new"
    by (simp add: handleNewTurns_def Let_def nth_append split: option.splits)
  have cv: "convId (promises ?s' ! k) = convId (promises s ! k)"
    and phk: "phase (promises ?s' ! k) = phase (promises s ! k)"
    if "k < ?n" for k
    using that
    by (auto simp: handleNewTurns_def Let_def nth_append nth_list_update split: option.splits)
  have re: "set (reactions (promises ?s' ! k)) \<subseteq>
      set (reactions (promises s ! k)) \<union> (if processingQueues s c = Some k then {?n} else {})"
    if "k < ?n" for k
    using that
    by (auto simp: handleNewTurns_def Let_def nth_append nth_list_update split: option.splits)
  have mt: "set (microtasks ?s') =
      set (microtasks s) \<union> (if ?pending then {} else {RunCallback ?n})"
    using entries_lastD(1) [OF inv]
    by (auto simp: handleNewTurns_def Let_def split: option.splits)
  show ?thesis
  proof (rule bg_invI)
    show "entries_last ?s'"
      unfolding entries_last_def len
    proof (intro allI impI)
      fix c' p
      assume e: "processingQueues ?s' c' = Some p"
      show "p < Suc ?n \<and> convId (promises ?s' ! p) = c' \<and>
          (\<forall>k. p < k \<and> k < Suc ?n \<longrightarrow> convId (promises ?s' ! k) \<noteq> c')"
      proof (cases "c' = c")
        case True
        with e have "p = ?n" by (simp add: pq)
        with True show ?thesis by (auto simp: last)
      next
        case False
        with e have e0: "processingQueues s c' = Some p" by (simp add: pq)
        note d = entries_lastD [OF inv e0]
        have "convId (promises ?s' ! k) \<noteq> c'" if "p < k" "k < Suc ?n" for k
        proof (cases "k = ?n")
          case True
          with False show ?thesis by (simp add: last)
        next
          case f: False
          with that have "k < ?n" by simp
          with d(3) [OF that(1)] show ?thesis by (simp add: cv)
        qed
        with d(1,2) show ?thesis by (simp add: cv)
      qed
    qed
    show "absent_settled ?s'"
      unfolding absent_settled_def len
    proof (intro allI impI)
      fix c' k
      assume e: "processingQueues ?s' c' = None" and k: "k < Suc ?n"
        and ck: "convId (promises ?s' ! k) = c'"
      from e have ne: "c' \<noteq> c" and e0: "processingQueues s c' = None"
        by (auto simp: pq split: if_splits)
      have "k \<noteq> ?n"
        using ck ne by (auto simp: last)
      with k have k0: "k < ?n" by simp
      from absent_settledD [OF inv e0 k0] ck k0 show "phase (promises ?s' ! k) = Settled"
        by (simp add: cv phk)
    qed
    show "later_parked ?s'"
      unfolding later_parked_def len
    proof (intro allI impI)
      fix i
      assume i: "i < Suc ?n" and n: "phase (promises ?s' ! i) \<noteq> Settled"
      show "parked_after ?s' i"
      proof (rule parked_afterI)
        fix k
        assume k: "i < k" "k < length (promises ?s')"
          "convId (promises ?s' ! k) = convId (promises ?s' ! i)"
        from k(1,2) have i0: "i < ?n" by (simp add: len)
        with n have n0: "phase (promises s ! i) \<noteq> Settled" by (simp add: phk)
        note pa = later_parkedD [OF inv i0 n0]
        show "is_chained (phase (promises ?s' ! k)) \<and> RunCallback k \<notin> set (microtasks ?s')"
        proof (cases "k = ?n")
          case False
          with k(2) have k0: "k < ?n" by (simp add: len)
          with k(3) i0 have "convId (promises s ! k) = convId (promises s ! i)"
            by (simp add: cv)
          from parked_afterD [OF pa k(1) k0 this] k0 False show ?thesis
            by (simp add: phk mt)
        next
          case True
          with k(3) i0 have ci: "convId (promises s ! i) = c"
            by (simp add: cv last)
          have "?pending"
          proof (rule ccontr)
            assume "\<not> ?pending"
            then have "processingQueues s c = None \<or>
                (\<exists>p. processingQueues s c = Some p \<and> phase (promises s ! p) = Settled)"
              by (cases "processingQueues s c") auto
            from all_settled_at_settled_entry [OF inv this i0 ci] n0 show False by simp
          qed
          moreover have "RunCallback ?n \<notin> set (microtasks s)"
            using queue_validD(1) [OF inv, of ?n] by auto
          ultimately show ?thesis
            using True by (simp add: last is_chained_def mt)
        qed
      qed
    qed
    show "queue_valid ?s'"
      unfolding queue_valid_def len
    proof (intro conjI allI impI)
      fix k
      assume "RunCallback k \<in> set (microtasks ?s')"
      then have "RunCallback k \<in> set (microtasks s) \<or> k = ?n"
        by (auto simp: mt split: if_splits)
      with queue_validD(1) [OF inv, of k] show "k < Suc ?n" by auto
    next
      fix k
      assume "Cleanup k \<in> set (microtasks ?s')"
      then have c: "Cleanup k \<in> set (microtasks s)"
        by (auto simp: mt split: if_splits)
      from queue_validD(2) [OF inv c] show "k < Suc ?n" by simp
      from queue_validD(2,3) [OF inv c] show "phase (promises ?s' ! k) = Settled"
        by (simp add: phk)
    qed
    show "reactions_next ?s'"
      unfolding reactions_next_def len
    proof (intro allI impI ballI)
      fix i k
      assume i: "i < Suc ?n" and k: "k \<in> set (reactions (promises ?s' ! i))"
      have i0: "i < ?n"
      proof (rule ccontr)
        assume "\<not> i < ?n"
        with i have "i = ?n" by simp
        with k show False by (simp add: last)
      qed
      from re [OF i0] k consider (old) "k \<in> set (reactions (promises s ! i))"
        | (new) "processingQueues s c = Some i" "k = ?n"
        by (auto split: if_splits)
      then show "i < k \<and> k < Suc ?n \<and> convId (promises ?s' ! k) = convId (promises ?s' ! i) \<and>
          (\<forall>l. i < l \<and> l < k \<longrightarrow> convId (promises ?s' ! l) \<noteq> convId (promises ?s' ! i))"
      proof cases
        case old
        note d = reactions_nextD [OF inv i0 old]
        have "convId (promises ?s' ! l) \<noteq> convId (promises ?s' ! i)" if "i < l" "l < k" for l
          using d(4) [OF that] d(2) that i0 by (simp add: cv)
        with d(1,2,3) i0 show ?thesis by (simp add: cv)
      next
        case new
        note d = entries_lastD [OF inv new(1)]
        have "convId (promises ?s' ! l) \<noteq> convId (promises ?s' ! i)" if "i < l" "l < k" for l
          using d(3) [OF that(1)] d(2) that new(2) i0 by (simp add: cv)
        with d(1,2) new(2) i0 show ?thesis by (simp add: cv last)
      qed
    qed
  qed
qed

text \<open>The handlers and the microtask checkpoint.\<close>

lemma settled_before_cong:
  assumes "promises s' = promises s"
  shows "settled_before s' j = settled_before s j"
  by (simp add: settled_before_def assms)

lemma inv_emit: "bg_inv s \<Longrightarrow> bg_inv (emit e s)"
  by (rule inv_pop) (simp_all add: emit_def)

lemma inv_loop_next:
  assumes inv: "bg_inv s" and j: "j < length (promises s)"
    and ns: "phase (promises s ! j) \<noteq> Settled" and first: "settled_before s j"
  shows "bg_inv (loop_next j turns s)"
proof (cases turns)
  case Nil
  have "bg_inv (settle j s)"
    by (rule inv_settle [OF inv j ns first]) (simp_all add: settle_def)
  with Nil show ?thesis by (simp add: loop_next_def)
next
  case (Cons t rest)
  have "bg_inv (analyzeTurn j t 0 rest s)"
    by (rule inv_phase [OF inv j ns first, of "Fetching t 0 rest"])
      (simp_all add: analyzeTurn_def set_phase_def emit_def)
  with Cons show ?thesis by (simp add: loop_next_def)
qed

lemma inv_analyzeTurn_settled:
  assumes inv: "bg_inv s"
  shows "bg_inv (analyzeTurn_settled j ok s)"
proof (cases "j < length (promises s)")
  case False
  with inv show ?thesis by (simp add: analyzeTurn_settled_def)
next
  case j: True
  show ?thesis
  proof (cases "phase (promises s ! j)")
    case (Fetching t r rest)
    let ?c = "convId (promises s ! j)"
    have first: "settled_before s j"
      by (rule runner_first [OF inv j]) (simp add: Fetching is_chained_def)
    have ns: "phase (promises s ! j) \<noteq> Settled"
      by (simp add: Fetching)
    have go_on: "bg_inv (loop_next j rest (emit e s))" for e
      by (rule inv_loop_next [OF inv_emit [OF inv]])
        (use j ns first in \<open>simp_all add: emit_def settled_before_def\<close>)
    have sleep: "bg_inv (set_phase j (Sleeping t r rest) (emit e s))" for e
      by (rule inv_phase [OF inv j ns first, of "Sleeping t r rest"])
        (simp_all add: set_phase_def emit_def)
    from go_on sleep show ?thesis
      using j by (simp add: analyzeTurn_settled_def Fetching Let_def)
  qed (use inv j in \<open>simp_all add: analyzeTurn_settled_def\<close>)
qed

lemma inv_analyzeTurn_retry:
  assumes inv: "bg_inv s"
  shows "bg_inv (analyzeTurn_retry j s)"
proof (cases "j < length (promises s)")
  case False
  with inv show ?thesis by (simp add: analyzeTurn_retry_def)
next
  case j: True
  show ?thesis
  proof (cases "phase (promises s ! j)")
    case (Sleeping t r rest)
    have first: "settled_before s j"
      by (rule runner_first [OF inv j]) (simp add: Sleeping is_chained_def)
    have ns: "phase (promises s ! j) \<noteq> Settled"
      by (simp add: Sleeping)
    have "bg_inv (analyzeTurn j t (r + 1) rest s)"
      by (rule inv_phase [OF inv j ns first, of "Fetching t (r + 1) rest"])
        (simp_all add: analyzeTurn_def set_phase_def emit_def)
    then show ?thesis
      using j by (simp add: analyzeTurn_retry_def Sleeping)
  qed (use inv j in \<open>simp_all add: analyzeTurn_retry_def\<close>)
qed

lemma inv_run_microtask:
  assumes inv: "bg_inv s" and q: "microtasks s = m # ms"
  shows "bg_inv (run_microtask m (s\<lparr>microtasks := ms\<rparr>))"
proof -
  let ?s0 = "s\<lparr>microtasks := ms\<rparr>"
  have inv0: "bg_inv ?s0"
    by (rule inv_pop [OF inv]) (auto simp: q)
  show ?thesis
  proof (cases m)
    case (RunCallback j)
    show ?thesis
    proof (cases "j < length (promises s)")
      case False
      with inv0 RunCallback show ?thesis by (simp add: run_microtask_def)
    next
      case j: True
      show ?thesis
      proof (cases "phase (promises s ! j)")
        case (Chained turns)
        have "settled_before s j"
          by (rule runner_first [OF inv j]) (simp add: q RunCallback)
        then have first: "settled_before ?s0 j"
          by (simp add: settled_before_def)
        have "bg_inv (loop_next j turns ?s0)"
          by (rule inv_loop_next [OF inv0 _ _ first]) (use j Chained in simp_all)
        with j Chained RunCallback show ?thesis by (simp add: run_microtask_def)
      qed (use inv0 j RunCallback in \<open>simp_all add: run_microtask_def\<close>)
    qed
  next
    case (Cleanup j)
    show ?thesis
    proof (cases "j < length (promises s) \<and> processingQueues s (convId (promises s ! j)) = Some j")
      case False
      with inv0 Cleanup show ?thesis by (auto simp: run_microtask_def)
    next
      case True
      have st: "phase (promises s ! j) = Settled"
        by (rule queue_validD(3) [OF inv]) (simp add: q Cleanup)
      have "bg_inv (?s0\<lparr>processingQueues := (processingQueues ?s0)(convId (promises ?s0 ! j) := None)\<rparr>)"
        by (rule inv_cleanup [OF inv0, of j]) (use True st in simp_all)
      with True Cleanup show ?thesis by (simp add: run_microtask_def)
    qed
  qed
qed

lemma inv_drain: "bg_inv s \<Longrightarrow> bg_inv (drain s)"
proof (induction s rule: drain.induct)
  case (1 s)
  show ?case
  proof (cases "microtasks s")
    case Nil
    with "1.prems" show ?thesis by (simp add: drain_Nil)
  next
    case (Cons m ms)
    from "1.IH" [OF Cons inv_run_microtask [OF "1.prems" Cons]] show ?thesis
      by (simp add: drain_Cons [OF Cons])
  qed
qed

lemma inv_step: "bg_inv s \<Longrightarrow> bg_inv (step e s)"
  by (cases e)
    (simp_all add: step_def handle_event_def inv_drain inv_handleNewTurns
      inv_analyzeTurn_settled inv_analyzeTurn_retry)

lemma bg_inv_init: "bg_inv bg_init"
  by (simp add: bg_inv_def entries_last_def absent_settled_def later_parked_def queue_valid_def
      reactions_next_def bg_init_def)

lemma run_snoc: "run s (evs @ [e]) = step e (run s evs)"
  by (simp add: run_def)

lemma bg_inv_run: "bg_inv s \<Longrightarrow> bg_inv (run s evs)"
  by (induction evs rule: rev_induct) (simp_all add: run_Nil run_snoc inv_step)

text \<open>Between tasks the queue of reactions is empty.\<close>

lemma drain_empties: "microtasks (drain s) = []"
proof (induction s rule: drain.induct)
  case (1 s)
  show ?case
  proof (cases "microtasks s")
    case Nil
    then show ?thesis by (simp add: drain_Nil)
  next
    case (Cons m ms)
    from "1.IH" [OF Cons] show ?thesis
      by (simp add: drain_Cons [OF Cons])
  qed
qed

subsection \<open>The trace and the store\<close>

lemma started_append: "started c (tr @ tr') = started c tr @ started c tr'"
  by (simp add: started_def)

lemma started_other:
  assumes "\<forall>e \<in> set evs. io_conv e = c" "c' \<noteq> c"
  shows "started c' evs = []"
  using assms
  by (induction evs) (auto simp: started_def first_request_def io_conv_def split: io.splits)

lemma track_other:
  assumes "\<forall>e \<in> set evs. io_conv e = c" "c' \<noteq> c"
  shows "foldl (track c') (Some f) evs = Some f"
  using assms by (induction evs) (auto simp: track_def)

lemma track_own:
  assumes "\<forall>e \<in> set evs. io_conv e = c"
  shows "foldl (track c) st (e # evs) =
     foldl (track c) (case st of None \<Rightarrow> None | Some f \<Rightarrow> if io_conv e = c then advance f e else Some f) evs"
  by (simp add: track_def)

lemma concat_map_nth_split:
  assumes "j < length xs"
  shows "concat (map f xs) =
     concat (map f (take j xs)) @ f (xs ! j) @ concat (map f (drop (Suc j) xs))"
proof -
  have "xs = take j xs @ xs ! j # drop (Suc j) xs"
    using assms by (rule id_take_nth_drop)
  then have "concat (map f xs) = concat (map f (take j xs @ xs ! j # drop (Suc j) xs))"
    by simp
  then show ?thesis by simp
qed

lemma concat_map_update:
  assumes "j < length xs"
  shows "concat (map f (xs[j := y])) =
     concat (map f (take j xs)) @ f y @ concat (map f (drop (Suc j) xs))"
  using assms by (simp add: upd_conv_take_nth_drop)

lemma concat_map_update_same:
  assumes "j < length xs" "f y = f (xs ! j)"
  shows "concat (map f (xs[j := y])) = concat (map f xs)"
  using assms concat_map_nth_split [OF assms(1), of f] by (simp add: concat_map_update)

lemma concat_map_empty:
  assumes "\<And>x. x \<in> set xs \<Longrightarrow> f x = []"
  shows "concat (map f xs) = []"
  using assms by (induction xs) simp_all

lemma waiting_before:
  assumes "settled_before s j" "j < length (promises s)"
  shows "concat (map (waiting_in (convId (promises s ! j))) (take j (promises s))) = []"
proof (rule concat_map_empty)
  fix x
  assume "x \<in> set (take j (promises s))"
  then obtain i where i: "i < j" "x = promises s ! i"
    using assms(2) by (auto simp: in_set_conv_nth)
  with settled_beforeD [OF assms(1) i(1)]
  show "waiting_in (convId (promises s ! j)) x = []"
    by (auto simp: waiting_in_def)
qed

lemma flights_before:
  assumes "settled_before s j" "j < length (promises s)"
  shows "concat (map (flights_in (convId (promises s ! j))) (take j (promises s))) = []"
proof (rule concat_map_empty)
  fix x
  assume "x \<in> set (take j (promises s))"
  then obtain i where i: "i < j" "x = promises s ! i"
    using assms(2) by (auto simp: in_set_conv_nth)
  with settled_beforeD [OF assms(1) i(1)]
  show "flights_in (convId (promises s ! j)) x = []"
    by (auto simp: flights_in_def)
qed

lemma flights_after:
  assumes "parked_after s j" "j < length (promises s)"
  shows "concat (map (flights_in (convId (promises s ! j))) (drop (Suc j) (promises s))) = []"
proof (rule concat_map_empty)
  fix x
  assume "x \<in> set (drop (Suc j) (promises s))"
  then obtain i where "i < length (drop (Suc j) (promises s))"
      "drop (Suc j) (promises s) ! i = x"
    unfolding in_set_conv_nth by blast
  then have i: "Suc j + i < length (promises s)" "x = promises s ! (Suc j + i)"
    by auto
  show "flights_in (convId (promises s ! j)) x = []"
  proof (cases "convId x = convId (promises s ! j)")
    case False
    then show ?thesis by (simp add: flights_in_def)
  next
    case True
    from parked_afterD(1) [OF assms(1) _ i(1)] True i(2)
    have "is_chained (phase x)" by simp
    then show ?thesis
      by (cases "phase x") (simp_all add: flights_in_def is_chained_def)
  qed
qed

text \<open>What the first unsettled promise of a conversation says about the conversation.\<close>

lemma runner_view:
  assumes inv: "bg_inv s" and j: "j < length (promises s)"
    and ns: "phase (promises s ! j) \<noteq> Settled" and first: "settled_before s j"
  shows "waiting (convId (promises s ! j)) s =
           turns_left (phase (promises s ! j)) @
           concat (map (waiting_in (convId (promises s ! j))) (drop (Suc j) (promises s)))"
    and "flights (convId (promises s ! j)) s = active_flight (phase (promises s ! j))"
proof -
  note pa = later_parkedD [OF inv j ns]
  show "waiting (convId (promises s ! j)) s =
           turns_left (phase (promises s ! j)) @
           concat (map (waiting_in (convId (promises s ! j))) (drop (Suc j) (promises s)))"
    unfolding waiting_def concat_map_nth_split [OF j, of "waiting_in (convId (promises s ! j))"]
    by (simp add: waiting_before [OF first j] waiting_in_def)
  show "flights (convId (promises s ! j)) s = active_flight (phase (promises s ! j))"
    unfolding flights_def concat_map_nth_split [OF j, of "flights_in (convId (promises s ! j))"]
    by (simp add: flights_before [OF first j] flights_after [OF pa j] flights_in_def)
qed

text \<open>
  One move of the callback of promise \<open>j\<close>: it emits \<open>evs\<close> and replaces its promise by
  \<open>pj\<close>, of the same conversation.
\<close>

lemma tr_inv_move:
  assumes tr: "tr_inv q s" and inv: "bg_inv s" and j: "j < length (promises s)"
    and ns: "phase (promises s ! j) \<noteq> Settled" and first: "settled_before s j"
    and cv: "convId pj = convId (promises s ! j)"
    and ps: "promises s' = (promises s)[j := pj]"
    and tc: "trace s' = trace s @ evs"
    and own: "\<forall>e \<in> set evs. io_conv e = convId (promises s ! j)"
    and protocol: "foldl (track (convId (promises s ! j)))
                     (Some (phase_flight (phase (promises s ! j)))) evs
                   = Some (phase_flight (phase pj))"
    and turns: "started (convId (promises s ! j)) evs @ turns_left (phase pj)
                = turns_left (phase (promises s ! j))"
  shows "tr_inv q s'"
  unfolding tr_inv_def
proof (intro allI conjI)
  fix c
  let ?c = "convId (promises s ! j)"
  from tr have eq: "started c (trace s) @ waiting c s = q c"
    and fl: "foldl (track c) (Some Idle) (trace s) = Some (flight_of c s)"
    by (simp_all add: tr_inv_def)
  note pa = later_parkedD [OF inv j ns]
  show "started c (trace s') @ waiting c s' = q c"
  proof (cases "c = ?c")
    case False
    have "waiting c s' = waiting c s"
      unfolding waiting_def ps
      by (rule concat_map_update_same [OF j]) (use False cv in \<open>simp add: waiting_in_def\<close>)
    with started_other [OF own False] eq show ?thesis
      by (simp add: tc started_append)
  next
    case True
    have w: "waiting ?c s' = turns_left (phase pj) @
           concat (map (waiting_in ?c) (drop (Suc j) (promises s)))"
      unfolding waiting_def ps concat_map_update [OF j]
      by (simp add: waiting_before [OF first j] waiting_in_def cv)
    from eq True runner_view(1) [OF inv j ns first] w show ?thesis
      by (simp add: tc started_append turns [symmetric])
  qed
  show "foldl (track c) (Some Idle) (trace s') = Some (flight_of c s')"
  proof (cases "c = ?c")
    case False
    have "flights c s' = flights c s"
      unfolding flights_def ps
      by (rule concat_map_update_same [OF j]) (use False cv in \<open>simp add: flights_in_def\<close>)
    with track_other [OF own False] fl show ?thesis
      by (simp add: tc flight_of_def)
  next
    case True
    have "flights ?c s' = active_flight (phase pj)"
      unfolding flights_def ps concat_map_update [OF j]
      by (simp add: flights_before [OF first j] flights_after [OF pa j] flights_in_def cv)
    then have a: "flight_of ?c s' = phase_flight (phase pj)"
      by (simp add: flight_of_def phase_flight_def)
    have b: "flight_of ?c s = phase_flight (phase (promises s ! j))"
      using runner_view(2) [OF inv j ns first] by (simp add: flight_of_def phase_flight_def)
    from fl True protocol a b show ?thesis
      by (simp add: tc)
  qed
qed

text \<open>Steps that touch neither the trace nor the progress of a callback.\<close>

lemma tr_inv_same:
  assumes "tr_inv q s" "trace s' = trace s"
    "map (\<lambda>p. (convId p, phase p)) (promises s') = map (\<lambda>p. (convId p, phase p)) (promises s)"
  shows "tr_inv q s'"
proof -
  have f: "waiting_in c = (\<lambda>x. if fst x = c then turns_left (snd x) else []) \<circ> (\<lambda>p. (convId p, phase p))"
    "flights_in c = (\<lambda>x. if fst x = c then active_flight (snd x) else []) \<circ> (\<lambda>p. (convId p, phase p))"
    for c
    by (auto simp: waiting_in_def flights_in_def fun_eq_iff)
  have "waiting c s' = waiting c s" "flights c s' = flights c s" for c
    unfolding waiting_def flights_def f map_map [symmetric] assms(3) by simp_all
  with assms(1,2) show ?thesis
    by (simp add: tr_inv_def flight_of_def)
qed

lemma foldl_track_snoc: "foldl (track c) st (evs @ [e]) = track c (foldl (track c) st evs) e"
  by simp

lemma tr_inv_loop_next:
  assumes tr: "tr_inv q s" and inv: "bg_inv s" and j: "j < length (promises s)"
    and ns: "phase (promises s ! j) \<noteq> Settled" and first: "settled_before s j"
    and ps0: "promises s0 = promises s" and tc0: "trace s0 = trace s @ pre"
    and own: "\<forall>e \<in> set pre. io_conv e = convId (promises s ! j)"
    and protocol: "foldl (track (convId (promises s ! j)))
                     (Some (phase_flight (phase (promises s ! j)))) pre = Some Idle"
    and st: "started (convId (promises s ! j)) pre = []"
    and turns: "turns_left (phase (promises s ! j)) = turns"
  shows "tr_inv q (loop_next j turns s0)"
proof (cases turns)
  case Nil
  have "tr_inv q (settle j s0)"
  proof (rule tr_inv_move [OF tr inv j ns first, where evs = pre])
    show "promises (settle j s0) =
        (promises s)[j := (promises s ! j)\<lparr>phase := Settled, reactions := []\<rparr>]"
      by (simp add: settle_def ps0)
    show "trace (settle j s0) = trace s @ pre"
      by (simp add: settle_def tc0)
  qed (use own protocol st turns Nil in \<open>simp_all add: phase_flight_def\<close>)
  with Nil show ?thesis by (simp add: loop_next_def)
next
  case (Cons t rest)
  let ?c = "convId (promises s ! j)"
  have "tr_inv q (analyzeTurn j t 0 rest s0)"
  proof (rule tr_inv_move [OF tr inv j ns first, where evs = "pre @ [FetchIssued ?c t 0]"])
    show "promises (analyzeTurn j t 0 rest s0) =
        (promises s)[j := (promises s ! j)\<lparr>phase := Fetching t 0 rest\<rparr>]"
      by (simp add: analyzeTurn_def set_phase_def emit_def ps0)
    show "trace (analyzeTurn j t 0 rest s0) = trace s @ pre @ [FetchIssued ?c t 0]"
      by (simp add: analyzeTurn_def set_phase_def emit_def ps0 tc0)
    show "\<forall>e \<in> set (pre @ [FetchIssued ?c t 0]). io_conv e = ?c"
      using own by (simp add: io_conv_def)
    show "foldl (track ?c) (Some (phase_flight (phase (promises s ! j)))) (pre @ [FetchIssued ?c t 0])
        = Some (phase_flight (phase ((promises s ! j)\<lparr>phase := Fetching t 0 rest\<rparr>)))"
      using protocol by (simp add: track_def io_conv_def phase_flight_def)
    show "started ?c (pre @ [FetchIssued ?c t 0])
          @ turns_left (phase ((promises s ! j)\<lparr>phase := Fetching t 0 rest\<rparr>))
        = turns_left (phase (promises s ! j))"
      by (simp add: started_append st turns Cons) (simp add: started_def first_request_def)
  qed simp
  with Cons show ?thesis by (simp add: loop_next_def)
qed

lemma tr_inv_analyzeTurn_settled:
  assumes tr: "tr_inv q s" and inv: "bg_inv s"
  shows "tr_inv q (analyzeTurn_settled j ok s)"
proof (cases "j < length (promises s)")
  case False
  with tr show ?thesis by (simp add: analyzeTurn_settled_def)
next
  case j: True
  show ?thesis
  proof (cases "phase (promises s ! j)")
    case (Fetching t r rest)
    let ?c = "convId (promises s ! j)"
    have first: "settled_before s j"
      by (rule runner_first [OF inv j]) (simp add: Fetching is_chained_def)
    have ns: "phase (promises s ! j) \<noteq> Settled"
      by (simp add: Fetching)
    have delivered: "tr_inv q (loop_next j rest (emit (Delivered ?c t) s))"
      by (rule tr_inv_loop_next [OF tr inv j ns first, where pre = "[Delivered ?c t]"])
        (simp_all add: emit_def Fetching io_conv_def track_def phase_flight_def started_def
          first_request_def)
    have dropped: "tr_inv q (loop_next j rest (emit (Dropped ?c t) s))" if "\<not> r < MAX_RETRIES"
      by (rule tr_inv_loop_next [OF tr inv j ns first, where pre = "[Dropped ?c t]"])
        (use that in \<open>simp_all add: emit_def Fetching io_conv_def track_def phase_flight_def
          started_def first_request_def\<close>)
    have sleep: "tr_inv q (set_phase j (Sleeping t r rest) (emit (TimeoutSet ?c t (2000 * (r + 1))) s))"
      if "r < MAX_RETRIES"
      by (rule tr_inv_move [OF tr inv j ns first, where evs = "[TimeoutSet ?c t (2000 * (r + 1))]"
            and pj = "(promises s ! j)\<lparr>phase := Sleeping t r rest\<rparr>"])
        (use that in \<open>simp_all add: set_phase_def emit_def Fetching io_conv_def track_def
          phase_flight_def started_def first_request_def\<close>)
    from delivered dropped sleep show ?thesis
      using j by (simp add: analyzeTurn_settled_def Fetching Let_def)
  qed (use tr j in \<open>simp_all add: analyzeTurn_settled_def\<close>)
qed

lemma tr_inv_analyzeTurn_retry:
  assumes tr: "tr_inv q s" and inv: "bg_inv s"
  shows "tr_inv q (analyzeTurn_retry j s)"
proof (cases "j < length (promises s)")
  case False
  with tr show ?thesis by (simp add: analyzeTurn_retry_def)
next
  case j: True
  show ?thesis
  proof (cases "phase (promises s ! j)")
    case (Sleeping t r rest)
    let ?c = "convId (promises s ! j)"
    have first: "settled_before s j"
      by (rule runner_first [OF inv j]) (simp add: Sleeping is_chained_def)
    have ns: "phase (promises s ! j) \<noteq> Settled"
      by (simp add: Sleeping)
    have "tr_inv q (analyzeTurn j t (r + 1) rest s)"
      by (rule tr_inv_move [OF tr inv j ns first, where evs = "[FetchIssued ?c t (r + 1)]"
            and pj = "(promises s ! j)\<lparr>phase := Fetching t (r + 1) rest\<rparr>"])
        (simp_all add: analyzeTurn_def set_phase_def emit_def Sleeping io_conv_def track_def
          phase_flight_def started_def first_request_def)
    then show ?thesis
      using j by (simp add: analyzeTurn_retry_def Sleeping)
  qed (use tr j in \<open>simp_all add: analyzeTurn_retry_def\<close>)
qed

lemma tr_inv_run_microtask:
  assumes tr: "tr_inv q s" and inv: "bg_inv s" and mq: "microtasks s = m # ms"
  shows "tr_inv q (run_microtask m (s\<lparr>microtasks := ms\<rparr>))"
proof -
  let ?s0 = "s\<lparr>microtasks := ms\<rparr>"
  have tr0: "tr_inv q ?s0"
    by (rule tr_inv_same [OF tr]) simp_all
  show ?thesis
  proof (cases m)
    case (RunCallback j)
    show ?thesis
    proof (cases "j < length (promises s)")
      case False
      with tr0 RunCallback show ?thesis by (simp add: run_microtask_def)
    next
      case j: True
      show ?thesis
      proof (cases "phase (promises s ! j)")
        case (Chained turns)
        have first: "settled_before s j"
          by (rule runner_first [OF inv j]) (simp add: mq RunCallback)
        have "tr_inv q (loop_next j turns ?s0)"
          by (rule tr_inv_loop_next [OF tr inv j _ first, where pre = "[]"])
            (simp_all add: Chained phase_flight_def started_def)
        with j Chained RunCallback show ?thesis by (simp add: run_microtask_def)
      qed (use tr0 j RunCallback in \<open>simp_all add: run_microtask_def\<close>)
    qed
  next
    case (Cleanup j)
    have "tr_inv q (?s0\<lparr>processingQueues := pq\<rparr>)" for pq
      by (rule tr_inv_same [OF tr]) simp_all
    with tr0 Cleanup show ?thesis by (simp add: run_microtask_def)
  qed
qed

lemma tr_inv_drain: "tr_inv q s \<Longrightarrow> bg_inv s \<Longrightarrow> tr_inv q (drain s)"
proof (induction s rule: drain.induct)
  case (1 s)
  show ?case
  proof (cases "microtasks s")
    case Nil
    with "1.prems" show ?thesis by (simp add: drain_Nil)
  next
    case (Cons m ms)
    from "1.IH" [OF Cons tr_inv_run_microtask [OF "1.prems" Cons]
        inv_run_microtask [OF "1.prems"(2) Cons]]
    show ?thesis
      by (simp add: drain_Cons [OF Cons])
  qed
qed

lemma tr_inv_handleNewTurns:
  assumes tr: "tr_inv q s" and inv: "bg_inv s"
  shows "tr_inv (q(c := q c @ turns)) (handleNewTurns c turns s)"
proof -
  let ?new = "\<lparr>convId = c, phase = Chained turns, reactions = []\<rparr>"
  let ?s' = "handleNewTurns c turns s"
  obtain xs where ps: "promises ?s' = xs @ [?new]"
    and xs: "map (\<lambda>p. (convId p, phase p)) xs = map (\<lambda>p. (convId p, phase p)) (promises s)"
  proof (cases "\<exists>p. processingQueues s c = Some p \<and> p < length (promises s)
                   \<and> phase (promises s ! p) \<noteq> Settled")
    case False
    then have "promises ?s' = promises s @ [?new]"
      by (auto simp: handleNewTurns_def Let_def split: option.splits)
    with that [of "promises s"] show ?thesis by simp
  next
    case True
    then obtain p where p: "processingQueues s c = Some p" "p < length (promises s)"
      "phase (promises s ! p) \<noteq> Settled"
      by blast
    let ?xs = "(promises s)[p := (promises s ! p)\<lparr>reactions := reactions (promises s ! p)
                 @ [length (promises s)]\<rparr>]"
    have "promises ?s' = ?xs @ [?new]"
      using p by (simp add: handleNewTurns_def Let_def)
    moreover have "map (\<lambda>p. (convId p, phase p)) ?xs = map (\<lambda>p. (convId p, phase p)) (promises s)"
      using p(2) by (simp add: map_update list_update_same_conv)
    ultimately show ?thesis by (rule that)
  qed
  have tc: "trace ?s' = trace s"
    by (simp add: handleNewTurns_def Let_def split: option.splits)
  have f: "waiting_in c' = (\<lambda>x. if fst x = c' then turns_left (snd x) else []) \<circ> (\<lambda>p. (convId p, phase p))"
    "flights_in c' = (\<lambda>x. if fst x = c' then active_flight (snd x) else []) \<circ> (\<lambda>p. (convId p, phase p))"
    for c'
    by (auto simp: waiting_in_def flights_in_def fun_eq_iff)
  have w: "concat (map (waiting_in c') xs) = waiting c' s"
    and fl: "concat (map (flights_in c') xs) = flights c' s" for c'
    unfolding waiting_def flights_def f map_map [symmetric] xs by simp_all
  have "waiting c' ?s' = waiting c' s @ (if c' = c then turns else [])"
    and "flights c' ?s' = flights c' s" for c'
    unfolding waiting_def [of c' ?s'] flights_def [of c' ?s'] ps
    by (simp_all add: w fl) (simp_all add: waiting_in_def flights_in_def)
  with tr show ?thesis
    by (simp add: tr_inv_def tc flight_of_def)
qed

lemma tr_inv_init: "tr_inv (\<lambda>c. []) bg_init"
  by (simp add: tr_inv_def bg_init_def started_def waiting_def flight_of_def flights_def)

lemma enqueued_snoc: "enqueued c (evs @ [e]) = enqueued c evs @ enqueued_by c e"
  by (simp add: enqueued_def)

lemma tr_inv_step:
  assumes tr: "tr_inv (\<lambda>c. enqueued c evs) s" and inv: "bg_inv s"
  shows "tr_inv (\<lambda>c. enqueued c (evs @ [e])) (step e s)"
proof (cases e)
  case (NewTurns c turns)
  have q: "(\<lambda>c'. enqueued c' (evs @ [e])) = (\<lambda>c'. enqueued c' evs)(c := enqueued c evs @ turns)"
    by (auto simp: fun_eq_iff enqueued_snoc enqueued_by_def NewTurns)
  from tr_inv_drain [OF tr_inv_handleNewTurns [OF tr inv, of c turns] inv_handleNewTurns [OF inv]]
  show ?thesis
    unfolding q by (simp add: NewTurns step_def handle_event_def)
next
  case (FetchDone j ok)
  have q: "(\<lambda>c'. enqueued c' (evs @ [e])) = (\<lambda>c'. enqueued c' evs)"
    by (auto simp: fun_eq_iff enqueued_snoc enqueued_by_def FetchDone)
  from tr_inv_drain [OF tr_inv_analyzeTurn_settled [OF tr inv] inv_analyzeTurn_settled [OF inv]]
  show ?thesis
    unfolding q by (simp add: FetchDone step_def handle_event_def)
next
  case (TimerDone j)
  have q: "(\<lambda>c'. enqueued c' (evs @ [e])) = (\<lambda>c'. enqueued c' evs)"
    by (auto simp: fun_eq_iff enqueued_snoc enqueued_by_def TimerDone)
  from tr_inv_drain [OF tr_inv_analyzeTurn_retry [OF tr inv] inv_analyzeTurn_retry [OF inv]]
  show ?thesis
    unfolding q by (simp add: TimerDone step_def handle_event_def)
qed

lemma tr_inv_run: "tr_inv (\<lambda>c. enqueued c evs) (run bg_init evs)"
proof (induction evs rule: rev_induct)
  case Nil
  then show ?case by (simp add: run_Nil enqueued_def tr_inv_init)
next
  case (snoc e evs)
  from tr_inv_step [OF snoc bg_inv_run [OF bg_inv_init]] show ?case
    by (simp add: run_snoc)
qed

subsection \<open>Delivery in the order of the enqueues\<close>

text \<open>
  C1. For every sequence of tasks of the worker and every conversation: the trace follows
  the delivery protocol of the conversation, so the first request of a turn is issued only
  when no turn of the conversation is in flight, that is after the turn before has been
  delivered or dropped, and a retry repeats the turn in flight; and the turns whose delivery
  has started, in the order of their first requests, followed by the turns still waiting in
  the store, are exactly the turns enqueued for the conversation, in the order of the
  \<^verbatim>\<open>NEW_TURNS\<close> messages.
\<close>

theorem delivery_is_fifo:
  "serial c (trace (run bg_init evs)) \<and>
   started c (trace (run bg_init evs)) @ waiting c (run bg_init evs) = enqueued c evs"
  using tr_inv_run [of evs] by (simp add: tr_inv_def serial_def)

theorem delivery_is_fifo_witness:
  "serial ''abc'' (trace (run bg_init
      [NewTurns ''abc'' [turn1], NewTurns ''xyz'' [turn2], NewTurns ''abc'' [turn2],
       FetchDone 0 False, TimerDone 0, FetchDone 0 True])) \<and>
   started ''abc'' (trace (run bg_init
      [NewTurns ''abc'' [turn1], NewTurns ''xyz'' [turn2], NewTurns ''abc'' [turn2],
       FetchDone 0 False, TimerDone 0, FetchDone 0 True]))
   @ waiting ''abc'' (run bg_init
      [NewTurns ''abc'' [turn1], NewTurns ''xyz'' [turn2], NewTurns ''abc'' [turn2],
       FetchDone 0 False, TimerDone 0, FetchDone 0 True])
   = [turn1, turn2]"
  using delivery_is_fifo [of "''abc''"
      "[NewTurns ''abc'' [turn1], NewTurns ''xyz'' [turn2], NewTurns ''abc'' [turn2],
        FetchDone 0 False, TimerDone 0, FetchDone 0 True]"]
  by (simp add: enqueued_def enqueued_by_def)

subsection \<open>Bounded retry\<close>



subsection \<open>Start of a delivery\<close>

text \<open>
  C9 (as amended). When no delivery is running for the conversation, \<^verbatim>\<open>handleNewTurns\<close>
  itself issues no request: it returns with the callback queued as a promise reaction. The
  first request of the batch is issued when that reaction runs, in the microtask checkpoint of
  the same task, so before any timer or any other task of the event loop.
\<close>

theorem handleNewTurns_starts_in_same_task:
  assumes idle: "processingQueues s c = None" and q: "microtasks s = []"
  shows "trace (handleNewTurns c (t # rest) s) = trace s \<and>
         microtasks (handleNewTurns c (t # rest) s) = [RunCallback (length (promises s))] \<and>
         trace (step (NewTurns c (t # rest)) s) = trace s @ [FetchIssued c t 0] \<and>
         microtasks (step (NewTurns c (t # rest)) s) = []"
  using handleNewTurns_idle [OF idle, of "t # rest"] step_first_batch [OF idle q, of t rest] q
  by simp

theorem handleNewTurns_starts_in_same_task_witness:
  "processingQueues bg_init ''abc'' = None \<and> microtasks bg_init = [] \<and>
   trace (handleNewTurns ''abc'' [turn1] bg_init) = [] \<and>
   microtasks (handleNewTurns ''abc'' [turn1] bg_init) = [RunCallback 0] \<and>
   trace (step (NewTurns ''abc'' [turn1]) bg_init) = [FetchIssued ''abc'' turn1 0] \<and>
   microtasks (step (NewTurns ''abc'' [turn1]) bg_init) = []"
  using handleNewTurns_starts_in_same_task [of bg_init "''abc''" turn1 "[]"]
  by (simp add: bg_init_def)

text \<open>
  The claim as stated fails: in the initial state no delivery is running for \<open>''abc''\<close>, and
  when \<^verbatim>\<open>handleNewTurns\<close> returns no request has been issued.
\<close>

theorem handleNewTurns_synchronous_counterexample:
  "processingQueues bg_init ''abc'' = None \<and>
   trace (handleNewTurns ''abc'' [turn1] bg_init) = []"
  by (simp add: handleNewTurns_def bg_init_def)

subsection \<open>Turns that were sent before\<close>







section \<open>Properties of the sidebar when React commits after every callback\<close>

subsection \<open>Commits\<close>

lemma commit_at_rest: "at_rest s \<Longrightarrow> commit s = s"
  by (simp add: at_rest_def commit_def effects_def render_def Let_def)

lemma flush_at_rest: "at_rest s \<Longrightarrow> flush s = s"
  by (simp add: flush_def commit_at_rest)

lemma metricsCleanup_fields:
  "conversationId (metricsCleanup s) = conversationId s"
  "escalationState (metricsCleanup s) = escalationState s"
  "escalationStateRef (metricsCleanup s) = escalationStateRef s"
  "prevConversationIdRef (metricsCleanup s) = prevConversationIdRef s"
  by (simp_all add: metricsCleanup_def split: option.splits)

lemma k2Cleanup_fields:
  "conversationId (k2Cleanup s) = conversationId s"
  "escalationState (k2Cleanup s) = escalationState s"
  "escalationStateRef (k2Cleanup s) = escalationStateRef s"
  "prevConversationIdRef (k2Cleanup s) = prevConversationIdRef s"
  by (simp_all add: k2Cleanup_def split: option.splits)

lemma resetEffect_fields:
  "conversationId (resetEffect c s) = conversationId s"
  "escalationStateRef (resetEffect c s) = escalationStateRef s"
  "escalationState (resetEffect c s) =
     (if c = [] \<or> c = prevConversationIdRef s then escalationState s else idle)"
  by (simp_all add: resetEffect_def)

lemma metricsEffect_fields:
  "conversationId (metricsEffect c s) = conversationId s"
  "escalationState (metricsEffect c s) = escalationState s"
  "escalationStateRef (metricsEffect c s) = escalationStateRef s"
  by (simp_all add: metricsEffect_def)

lemma k2Effect_fields:
  "conversationId (k2Effect c e s) = conversationId s"
  "escalationState (k2Effect c e s) = escalationState s"
  "escalationStateRef (k2Effect c e s) = escalationStateRef s"
  by (simp_all add: k2Effect_def)

lemmas effect_fields =
  metricsCleanup_fields k2Cleanup_fields resetEffect_fields metricsEffect_fields k2Effect_fields

lemma commit_fields:
  "conversationId (commit s) = conversationId s"
  "resetDeps (commit s) = Some (conversationId s)"
  "metricsDeps (commit s) = Some (conversationId s)"
  "k2Deps (commit s) = Some (conversationId s, escalationState s)"
  "escalationStateRef (commit s) = escalationState s"
  by (simp_all add: commit_def effects_def render_def Let_def effect_fields)

lemma commit_escalationState:
  "escalationState (commit s) =
     (if resetDeps s \<noteq> Some (conversationId s) \<and> conversationId s \<noteq> []
         \<and> conversationId s \<noteq> prevConversationIdRef s
      then idle else escalationState s)"
  by (simp add: commit_def effects_def render_def Let_def effect_fields)

lemma at_rest_flush: "at_rest (flush s)"
  by (simp add: at_rest_def flush_def commit_fields commit_escalationState)

lemma commit_same_conv:
  assumes "resetDeps s = Some (conversationId s)" "metricsDeps s = Some (conversationId s)"
  shows "commit s =
    (if k2Deps s = Some (conversationId s, escalationState s) then render s
     else k2Effect (conversationId s) (escalationState s) (k2Cleanup (render s)))
    \<lparr>resetDeps := Some (conversationId s), metricsDeps := Some (conversationId s),
     k2Deps := Some (conversationId s, escalationState s)\<rparr>"
  using assms by (simp add: commit_def effects_def Let_def render_def)

lemma commit_new_conv:
  assumes "resetDeps s \<noteq> Some (conversationId s)" "metricsDeps s \<noteq> Some (conversationId s)"
    "k2Deps s \<noteq> Some (conversationId s, escalationState s)"
  shows "commit s =
    (k2Effect (conversationId s) (escalationState s)
      (metricsEffect (conversationId s)
        (resetEffect (conversationId s) (k2Cleanup (metricsCleanup (render s))))))
    \<lparr>resetDeps := Some (conversationId s), metricsDeps := Some (conversationId s),
     k2Deps := Some (conversationId s, escalationState s)\<rparr>"
  using assms by (simp add: commit_def effects_def Let_def render_def)

lemma extractConversationId_nonempty: "extractConversationId url \<noteq> []"
proof -
  have "match_c url = Some m \<Longrightarrow> m \<noteq> []" for m
    by (induction url) (auto split: if_splits)
  then show ?thesis
    by (auto simp: extractConversationId_def split: option.splits)
qed

lemma inv_init: "sb_inv sb_mounted"
  by (simp add: sb_inv_def at_rest_def expected_timers_def sb_mounted_def sb_init_def flush_def commit_def effects_def Let_def render_def
    resetEffect_def metricsEffect_def k2Effect_def metricsCleanup_def k2Cleanup_def)

lemma flush_enter_pending:
  assumes inv: "sb_inv s" and idle: "escalationState s = idle" and cid: "conversationId s \<noteq> []"
    and sc: "same_control h s" and es: "escalationState h = escalated_pending"
    and tm: "timers h = timers s"
  shows "flush h = h\<lparr>escalationStateRef := escalated_pending,
      nextRun := nextRun s + 1, k2Mounted := Some (nextRun s),
      requests := requests h @ [(nextRun s, GetK2Status (conversationId s))],
      timers := timers s @ [(K2Interval (nextRun s), K2_POLL_INTERVAL), (K2Timeout (nextRun s), K2_TIMEOUT)],
      resetDeps := Some (conversationId s), metricsDeps := Some (conversationId s),
      k2Deps := Some (conversationId s, escalated_pending)\<rparr>" (is "_ = ?r")
    and "sb_inv (flush h)"
proof -
  from inv idle have d: "resetDeps s = Some (conversationId s)" "metricsDeps s = Some (conversationId s)"
    "k2Deps s = Some (conversationId s, idle)" "k2Mounted s = None"
    by (simp_all add: sb_inv_def at_rest_def)
  have c1: "commit h = ?r"
    using commit_same_conv [of h] sc es tm d cid
    by (simp add: same_control_def render_def k2Cleanup_def k2Effect_def)
  have "at_rest (commit h)"
    using sc es by (simp add: c1 at_rest_def same_control_def)
  then show f: "flush h = ?r"
    by (simp add: flush_def commit_at_rest c1)
  show "sb_inv (flush h)"
    using inv sc es tm cid d unfolding f
    by (simp add: sb_inv_def at_rest_def same_control_def expected_timers_def) auto
qed

lemma leave_timers:
  assumes inv: "sb_inv s" and g: "k2Mounted s = Some g"
    and tm: "timers h = timers s \<or> timers h = filter (\<lambda>x. fst x \<noteq> K2Timeout g) (timers s)"
  shows "set (filter (\<lambda>tm. fst tm \<noteq> K2Interval g \<and> fst tm \<noteq> K2Timeout g) (timers h))
       = (case metricsMounted s of None \<Rightarrow> {} | Some g \<Rightarrow> {(MetricsInterval g, METRICS_POLL_INTERVAL)})"
proof -
  from inv g have e: "set (timers s) =
      (case metricsMounted s of None \<Rightarrow> {} | Some g \<Rightarrow> {(MetricsInterval g, METRICS_POLL_INTERVAL)})
      \<union> {(K2Interval g, K2_POLL_INTERVAL), (K2Timeout g, K2_TIMEOUT)}"
    by (simp add: sb_inv_def expected_timers_def)
  have a: "set (filter (\<lambda>tm. fst tm \<noteq> K2Interval g \<and> fst tm \<noteq> K2Timeout g) (timers h))
      = {x \<in> set (timers s). fst x \<noteq> K2Interval g \<and> fst x \<noteq> K2Timeout g}"
    using tm by auto
  show ?thesis
    unfolding a e by (cases "metricsMounted s") auto
qed

lemma flush_leave_pending:
  assumes inv: "sb_inv s" and g: "k2Mounted s = Some g"
    and sc: "same_control h s" and es: "escalationState h \<noteq> escalated_pending"
    and tm: "timers h = timers s \<or> timers h = filter (\<lambda>x. fst x \<noteq> K2Timeout g) (timers s)"
  shows "flush h = h\<lparr>escalationStateRef := escalationState h,
      k2Mounted := None,
      timers := filter (\<lambda>tm. fst tm \<noteq> K2Interval g \<and> fst tm \<noteq> K2Timeout g) (timers h),
      resetDeps := Some (conversationId s), metricsDeps := Some (conversationId s),
      k2Deps := Some (conversationId s, escalationState h)\<rparr>" (is "_ = ?r")
    and "sb_inv (flush h)"
proof -
  from inv g have p: "escalationState s = escalated_pending"
    by (simp add: sb_inv_def)
  from inv p have d: "resetDeps s = Some (conversationId s)" "metricsDeps s = Some (conversationId s)"
    "k2Deps s = Some (conversationId s, escalated_pending)"
    by (simp_all add: sb_inv_def at_rest_def)
  have c1: "commit h = ?r"
    using commit_same_conv [of h] sc es g d
    by (simp add: same_control_def render_def k2Cleanup_def k2Effect_def)
  have "at_rest (commit h)"
    using sc es by (simp add: c1 at_rest_def same_control_def)
  then show f: "flush h = ?r"
    by (simp add: flush_def commit_at_rest c1)
  show "sb_inv (flush h)"
    using inv sc es g d leave_timers [OF inv g tm] unfolding f
    by (simp add: sb_inv_def at_rest_def same_control_def expected_timers_def)
qed

lemma flush_same:
  assumes inv: "sb_inv s"
    and sc: "same_control h s" and es: "escalationState h = escalationState s"
    and tm: "timers h = timers s" and ref: "escalationStateRef h = escalationStateRef s"
  shows "flush h = h" and "sb_inv h"
proof -
  show i: "sb_inv h"
    using inv sc es tm ref
    by (simp add: sb_inv_def at_rest_def same_control_def expected_timers_def)
  then show "flush h = h"
    by (simp add: flush_at_rest sb_inv_def)
qed

lemma flush_new_conv:
  assumes inv: "sb_inv s" and new: "new \<noteq> conversationId s" "new \<noteq> []"
    and h: "h = s\<lparr>conversationId := new\<rparr>"
  shows "conversationId (flush h) = new"
    and "escalationState (flush h) = idle"
    and "driftScore (flush h) = 0" "driftVelocity (flush h) = 0" "isRecovering (flush h) = False"
      "activeCommitments (flush h) = 0" "contradictions (flush h) = 0"
    and "escalationReason (flush h) = []" "k2Confidence (flush h) = 0" "k2Explanation (flush h) = []"
    and "metricsMounted (flush h) = Some (nextRun s)" "k2Mounted (flush h) = None"
    and "timers (flush h) = [(MetricsInterval (nextRun s), METRICS_POLL_INTERVAL)]"
    and "requests (flush h) = requests s @ (nextRun s, GetMetrics new) #
           (if escalationState s = escalated_pending then [(nextRun s + 1, GetK2Status new)] else [])"
    and "sb_inv (flush h)"
    and "nextRun (flush h) =
           (if escalationState s = escalated_pending then nextRun s + 2 else nextRun s + 1)"
proof -
  from inv have d: "resetDeps s = Some (conversationId s)" "metricsDeps s = Some (conversationId s)"
    "k2Deps s = Some (conversationId s, escalationState s)" "prevConversationIdRef s = conversationId s"
    "escalationStateRef s = escalationState s"
    by (simp_all add: sb_inv_def at_rest_def)
  define c where "c = commit h"
  have c1: "c = (k2Effect new (escalationState s)
      (metricsEffect new (resetEffect new (k2Cleanup (metricsCleanup (render h))))))
      \<lparr>resetDeps := Some new, metricsDeps := Some new, k2Deps := Some (new, escalationState s)\<rparr>"
    unfolding c_def using commit_new_conv [of h] new d by (simp add: h)
  have tm0: "filter (\<lambda>tm. fst tm \<noteq> K2Interval g \<and> fst tm \<noteq> K2Timeout g)
              (filter (\<lambda>tm. fst tm \<noteq> MetricsInterval m) (timers s)) = []"
    if "metricsMounted s = Some m" "k2Mounted s = Some g" for m g
    using inv that by (auto simp: sb_inv_def expected_timers_def filter_empty_conv)
  have tm1: "filter (\<lambda>tm. fst tm \<noteq> MetricsInterval m) (timers s) = []"
    if "metricsMounted s = Some m" "k2Mounted s = None" for m
    using inv that by (auto simp: sb_inv_def expected_timers_def filter_empty_conv)
  have tm2: "timers s = []" if "metricsMounted s = None"
    using inv that by (auto simp: sb_inv_def expected_timers_def)
  have k0: "k2Mounted s = None" if "metricsMounted s = None"
    using inv that by (auto simp: sb_inv_def)
  have cf: "conversationId c = new" "prevConversationIdRef c = new"
    "resetDeps c = Some new" "metricsDeps c = Some new" "k2Deps c = Some (new, escalationState s)"
    "escalationState c = idle" "driftScore c = 0" "driftVelocity c = 0" "isRecovering c = False"
    "activeCommitments c = 0" "contradictions c = 0"
    "escalationReason c = []" "k2Confidence c = 0" "k2Explanation c = []"
    "metricsMounted c = Some (nextRun s)" 
    "escalationStateRef c = escalationState s"
    using new d
    by (simp_all add: c1 h render_def k2Effect_def metricsEffect_def resetEffect_def k2Cleanup_def
        metricsCleanup_def split: option.splits)
  have base: "timers (k2Cleanup (metricsCleanup (render h))) = []"
    using tm0 tm1 tm2 k0
    by (cases "metricsMounted s"; cases "k2Mounted s")
      (simp_all add: h render_def k2Cleanup_def metricsCleanup_def)
  have cleaned: "k2Mounted (k2Cleanup (metricsCleanup (render h))) = None"
    "nextRun (k2Cleanup (metricsCleanup (render h))) = nextRun s"
    "requests (k2Cleanup (metricsCleanup (render h))) = requests s"
    by (simp_all add: h render_def k2Cleanup_def metricsCleanup_def split: option.splits)
  have cg: "k2Mounted c = (if escalationState s = escalated_pending then Some (nextRun s + 1) else None)"
    "timers c = (MetricsInterval (nextRun s), METRICS_POLL_INTERVAL) #
       (if escalationState s = escalated_pending
        then [(K2Interval (nextRun s + 1), K2_POLL_INTERVAL), (K2Timeout (nextRun s + 1), K2_TIMEOUT)]
        else [])"
    "requests c = requests s @ (nextRun s, GetMetrics new) #
           (if escalationState s = escalated_pending then [(nextRun s + 1, GetK2Status new)] else [])"
    "nextRun c = (if escalationState s = escalated_pending then nextRun s + 2 else nextRun s + 1)"
    using new base cleaned
    by (simp_all add: c1 k2Effect_def metricsEffect_def resetEffect_def)
  have c2: "commit c =
    (if escalationState s = idle then render c else k2Effect new idle (k2Cleanup (render c)))
    \<lparr>resetDeps := Some new, metricsDeps := Some new, k2Deps := Some (new, idle)\<rparr>"
    using commit_same_conv [of c] cf by simp
  have f: "flush h = commit c"
    by (simp add: flush_def c_def)
  have r: "conversationId (flush h) = new"
    "escalationState (flush h) = idle"
    "driftScore (flush h) = 0" "driftVelocity (flush h) = 0" "isRecovering (flush h) = False"
    "activeCommitments (flush h) = 0" "contradictions (flush h) = 0"
    "escalationReason (flush h) = []" "k2Confidence (flush h) = 0" "k2Explanation (flush h) = []"
    "metricsMounted (flush h) = Some (nextRun s)" "k2Mounted (flush h) = None"
    "timers (flush h) = [(MetricsInterval (nextRun s), METRICS_POLL_INTERVAL)]"
    "requests (flush h) = requests s @ (nextRun s, GetMetrics new) #
           (if escalationState s = escalated_pending then [(nextRun s + 1, GetK2Status new)] else [])"
    "nextRun (flush h) = nextRun c" "prevConversationIdRef (flush h) = new"
    unfolding f c2 using cf cg
    by (simp_all add: render_def k2Effect_def k2Cleanup_def)
  show "conversationId (flush h) = new"
    and "escalationState (flush h) = idle"
    and "driftScore (flush h) = 0" "driftVelocity (flush h) = 0" "isRecovering (flush h) = False"
      "activeCommitments (flush h) = 0" "contradictions (flush h) = 0"
    and "escalationReason (flush h) = []" "k2Confidence (flush h) = 0" "k2Explanation (flush h) = []"
    and "metricsMounted (flush h) = Some (nextRun s)" "k2Mounted (flush h) = None"
    and "timers (flush h) = [(MetricsInterval (nextRun s), METRICS_POLL_INTERVAL)]"
    and "requests (flush h) = requests s @ (nextRun s, GetMetrics new) #
           (if escalationState s = escalated_pending then [(nextRun s + 1, GetK2Status new)] else [])"
    by (rule r)+
  show "sb_inv (flush h)"
    using at_rest_flush [of h] r new cg(4)
    by (simp add: sb_inv_def expected_timers_def)
  show "nextRun (flush h) =
           (if escalationState s = escalated_pending then nextRun s + 2 else nextRun s + 1)"
    using r(15) cg(4) by simp
qed

subsection \<open>Callbacks\<close>

lemma inv_rest: "sb_inv s \<Longrightarrow> flush s = s"
  by (simp add: flush_at_rest sb_inv_def)

lemma step_unchanged: "sb_inv s \<Longrightarrow> sb_handle e s = s \<Longrightarrow> sb_step e s = s"
  by (simp add: sb_step_def inv_rest)

lemma step_metrics_discard:
  assumes "sb_inv s" "metricsMounted s \<noteq> Some g \<or> failed_fetch res"
  shows "sb_step (MetricsArrived g now res) s = s"
proof -
  have "pollMetrics_resume g now res s = s"
    using assms(2) by (auto simp: pollMetrics_resume_def failed_fetch_def split: response.splits)
  then show ?thesis
    using assms(1) by (simp add: step_unchanged sb_handle_def)
qed

lemma step_metrics_quiet:
  assumes inv: "sb_inv s" and m: "metricsMounted s = Some g"
    and q: "\<not> escalated data \<or> escalationState s \<noteq> idle"
  shows "sb_step (MetricsArrived g now (Ok data)) s = setMetrics data s"
    and "sb_inv (setMetrics data s)"
proof -
  have r: "escalationStateRef s = escalationState s"
    using inv by (simp add: sb_inv_def at_rest_def)
  have h: "sb_handle (MetricsArrived g now (Ok data)) s = setMetrics data s"
    using m q r by (auto simp: sb_handle_def pollMetrics_resume_def)
  have "same_control (setMetrics data s) s" "escalationState (setMetrics data s) = escalationState s"
    "timers (setMetrics data s) = timers s" "escalationStateRef (setMetrics data s) = escalationStateRef s"
    by (simp_all add: setMetrics_def same_control_def)
  from flush_same [OF inv this]
  show "sb_step (MetricsArrived g now (Ok data)) s = setMetrics data s"
    and "sb_inv (setMetrics data s)"
    by (simp_all add: sb_step_def h)
qed

lemma step_metrics_trigger:
  assumes inv: "sb_inv s" and m: "metricsMounted s = Some g"
    and q: "escalated data" "escalationState s = idle"
  shows "sb_step (MetricsArrived g now (Ok data)) s =
     (setMetrics data s)
       \<lparr>escalationState := escalated_pending,
        escalationReason := ''Cumulative Drift > Threshold'',
        escalationStartTimeRef := now,
        escalationStateRef := escalated_pending,
        nextRun := nextRun s + 1, k2Mounted := Some (nextRun s),
        requests := requests s @ [(nextRun s, GetK2Status (conversationId s))],
        timers := timers s @ [(K2Interval (nextRun s), K2_POLL_INTERVAL),
                              (K2Timeout (nextRun s), K2_TIMEOUT)],
        resetDeps := Some (conversationId s), metricsDeps := Some (conversationId s),
        k2Deps := Some (conversationId s, escalated_pending)\<rparr>"
    and "sb_inv (sb_step (MetricsArrived g now (Ok data)) s)"
proof -
  let ?h = "(setMetrics data s)
       \<lparr>escalationState := escalated_pending,
        escalationReason := ''Cumulative Drift > Threshold'',
        escalationStartTimeRef := now\<rparr>"
  have r: "escalationStateRef s = escalationState s"
    using inv by (simp add: sb_inv_def at_rest_def)
  have cid: "conversationId s \<noteq> []"
    using inv m by (auto simp: sb_inv_def)
  have h: "sb_handle (MetricsArrived g now (Ok data)) s = ?h"
    using m q r by (simp add: sb_handle_def pollMetrics_resume_def)
  have "same_control ?h s" "escalationState ?h = escalated_pending" "timers ?h = timers s"
    by (simp_all add: setMetrics_def same_control_def)
  from flush_enter_pending [OF inv q(2) cid this]
  show "sb_step (MetricsArrived g now (Ok data)) s =
     (setMetrics data s)
       \<lparr>escalationState := escalated_pending,
        escalationReason := ''Cumulative Drift > Threshold'',
        escalationStartTimeRef := now,
        escalationStateRef := escalated_pending,
        nextRun := nextRun s + 1, k2Mounted := Some (nextRun s),
        requests := requests s @ [(nextRun s, GetK2Status (conversationId s))],
        timers := timers s @ [(K2Interval (nextRun s), K2_POLL_INTERVAL),
                              (K2Timeout (nextRun s), K2_TIMEOUT)],
        resetDeps := Some (conversationId s), metricsDeps := Some (conversationId s),
        k2Deps := Some (conversationId s, escalated_pending)\<rparr>"
    and "sb_inv (sb_step (MetricsArrived g now (Ok data)) s)"
    by (simp_all add: sb_step_def h setMetrics_def)
qed

lemma step_k2_discard:
  assumes "sb_inv s" "k2Mounted s \<noteq> Some g \<or> failed_fetch res"
  shows "sb_step (K2StatusArrived g res) s = s"
proof -
  have "pollK2_resume g res s = s"
    using assms(2) by (auto simp: pollK2_resume_def failed_fetch_def split: response.splits)
  then show ?thesis
    using assms(1) by (simp add: step_unchanged sb_handle_def)
qed

lemma step_k2_no_verdict:
  assumes "sb_inv s"
    and "status data \<noteq> Some ''completed'' \<and> status data \<noteq> Some ''failed'' \<or>
         status data = Some ''completed'' \<and> result_type data \<noteq> Some ''confirmed''
           \<and> result_type data \<noteq> Some ''overridden''"
  shows "sb_step (K2StatusArrived g (Ok data)) s = s"
proof -
  have "pollK2_resume g (Ok data) s = s"
    using assms(2) by (auto simp: pollK2_resume_def)
  then show ?thesis
    using assms(1) by (simp add: step_unchanged sb_handle_def)
qed

lemma step_k2_verdict:
  assumes inv: "sb_inv s" and g: "k2Mounted s = Some g"
    and h: "sb_handle e s = s\<lparr>escalationState := es, k2Confidence := cf, k2Explanation := ex,
                               timers := tms\<rparr>"
    and es: "es \<noteq> escalated_pending"
    and tm: "tms = timers s \<or> tms = filter (\<lambda>x. fst x \<noteq> K2Timeout g) (timers s)"
  shows "sb_step e s =
     s\<lparr>escalationState := es, k2Confidence := cf, k2Explanation := ex,
       escalationStateRef := es, k2Mounted := None,
       timers := filter (\<lambda>tm. fst tm \<noteq> K2Interval g \<and> fst tm \<noteq> K2Timeout g) tms,
       resetDeps := Some (conversationId s), metricsDeps := Some (conversationId s),
       k2Deps := Some (conversationId s, es)\<rparr>"
    and "sb_inv (sb_step e s)"
proof -
  let ?h = "s\<lparr>escalationState := es, k2Confidence := cf, k2Explanation := ex, timers := tms\<rparr>"
  have "same_control ?h s" "escalationState ?h \<noteq> escalated_pending"
    "timers ?h = timers s \<or> timers ?h = filter (\<lambda>x. fst x \<noteq> K2Timeout g) (timers s)"
    using es tm by (simp_all add: same_control_def)
  from flush_leave_pending [OF inv g this]
  show "sb_step e s =
     s\<lparr>escalationState := es, k2Confidence := cf, k2Explanation := ex,
       escalationStateRef := es, k2Mounted := None,
       timers := filter (\<lambda>tm. fst tm \<noteq> K2Interval g \<and> fst tm \<noteq> K2Timeout g) tms,
       resetDeps := Some (conversationId s), metricsDeps := Some (conversationId s),
       k2Deps := Some (conversationId s, es)\<rparr>"
    and "sb_inv (sb_step e s)"
    by (simp_all add: sb_step_def h)
qed

lemma handle_k2_confirmed:
  assumes "k2Mounted s = Some g" "status data = Some ''completed''"
    "result_type data = Some ''confirmed''"
  shows "sb_handle (K2StatusArrived g (Ok data)) s =
     s\<lparr>escalationState := k2_confirmed,
       k2Confidence := (case k2_confidence data of None \<Rightarrow> 0 | Some x \<Rightarrow> x),
       k2Explanation := or_default (k2_explanation data) ''Contradiction confirmed by K2 reasoning'',
       timers := timers s\<rparr>"
  using assms by (simp add: sb_handle_def pollK2_resume_def)

lemma handle_k2_overridden:
  assumes "k2Mounted s = Some g" "status data = Some ''completed''"
    "result_type data = Some ''overridden''"
  shows "sb_handle (K2StatusArrived g (Ok data)) s =
     s\<lparr>escalationState := k2_overridden,
       k2Confidence := k2Confidence s,
       k2Explanation :=
         or_default (k2_explanation data) ''Heuristic false positive - no actual contradiction'',
       timers := timers s\<rparr>"
  using assms by (simp add: sb_handle_def pollK2_resume_def)

lemma handle_k2_failed:
  assumes "k2Mounted s = Some g" "status data = Some ''failed''"
  shows "sb_handle (K2StatusArrived g (Ok data)) s =
     s\<lparr>escalationState := k2_failed,
       k2Confidence := k2Confidence s,
       k2Explanation := ''K2 reasoning failed. Heuristic result retained.'',
       timers := timers s\<rparr>"
  using assms by (simp add: sb_handle_def pollK2_resume_def)

lemma timer_owner:
  assumes inv: "sb_inv s" and tm: "tm \<in> fst ` set (timers s)"
  shows "case tm of MetricsInterval g \<Rightarrow> metricsMounted s = Some g
         | K2Interval g \<Rightarrow> k2Mounted s = Some g
         | K2Timeout g \<Rightarrow> k2Mounted s = Some g"
proof -
  from inv have "set (timers s) = expected_timers s"
    by (simp add: sb_inv_def)
  with tm have "tm \<in> fst ` expected_timers s"
    by simp
  then show ?thesis
    by (auto simp: expected_timers_def split: option.splits)
qed

lemma handle_k2_timeout:
  assumes "k2Mounted s = Some g" "K2Timeout g \<in> fst ` set (timers s)"
  shows "sb_handle (TimerFired (K2Timeout g)) s =
     s\<lparr>escalationState := k2_failed,
       k2Confidence := k2Confidence s,
       k2Explanation := ''K2 reasoning timed out. Heuristic result retained.'',
       timers := filter (\<lambda>x. fst x \<noteq> K2Timeout g) (timers s)\<rparr>"
  using assms by (simp add: sb_handle_def fire_def k2Timeout_def)

lemma step_timer_cleared:
  assumes "sb_inv s" "tm \<notin> fst ` set (timers s)"
  shows "sb_step (TimerFired tm) s = s"
  using assms by (simp add: step_unchanged sb_handle_def fire_def)

lemma step_metrics_tick:
  assumes inv: "sb_inv s" and m: "metricsMounted s = Some g"
  shows "sb_step (TimerFired (MetricsInterval g)) s =
     s\<lparr>requests := requests s @ [(g, GetMetrics (conversationId s))]\<rparr>"
    and "sb_inv (s\<lparr>requests := requests s @ [(g, GetMetrics (conversationId s))]\<rparr>)"
proof -
  let ?h = "s\<lparr>requests := requests s @ [(g, GetMetrics (conversationId s))]\<rparr>"
  have t: "MetricsInterval g \<in> fst ` set (timers s)" and cid: "conversationId s \<noteq> []"
    using inv m by (auto simp: sb_inv_def expected_timers_def)
  have mc: "metricsClosure s = conversationId s"
    using inv by (simp add: sb_inv_def at_rest_def metricsClosure_def)
  have h: "sb_handle (TimerFired (MetricsInterval g)) s = ?h"
    using t cid m by (simp add: sb_handle_def fire_def pollMetrics_def mc)
  have "same_control ?h s" "escalationState ?h = escalationState s"
    "timers ?h = timers s" "escalationStateRef ?h = escalationStateRef s"
    by (simp_all add: same_control_def)
  from flush_same [OF inv this]
  show "sb_step (TimerFired (MetricsInterval g)) s = ?h" and "sb_inv ?h"
    by (simp_all add: sb_step_def h)
qed

lemma step_k2_tick:
  assumes inv: "sb_inv s" and m: "k2Mounted s = Some g"
  shows "sb_step (TimerFired (K2Interval g)) s =
     s\<lparr>requests := requests s @ [(g, GetK2Status (conversationId s))]\<rparr>"
    and "sb_inv (s\<lparr>requests := requests s @ [(g, GetK2Status (conversationId s))]\<rparr>)"
proof -
  let ?h = "s\<lparr>requests := requests s @ [(g, GetK2Status (conversationId s))]\<rparr>"
  have t: "K2Interval g \<in> fst ` set (timers s)"
    using inv m by (auto simp: sb_inv_def expected_timers_def)
  have kc: "k2Closure s = conversationId s"
    using inv by (simp add: sb_inv_def at_rest_def k2Closure_def)
  have h: "sb_handle (TimerFired (K2Interval g)) s = ?h"
    using t m by (simp add: sb_handle_def fire_def pollK2_def kc)
  have "same_control ?h s" "escalationState ?h = escalationState s"
    "timers ?h = timers s" "escalationStateRef ?h = escalationStateRef s"
    by (simp_all add: same_control_def)
  from flush_same [OF inv this]
  show "sb_step (TimerFired (K2Interval g)) s = ?h" and "sb_inv ?h"
    by (simp_all add: sb_step_def h)
qed

lemma step_tab_same:
  assumes "sb_inv s" "extractConversationId url = conversationId s"
  shows "sb_step (TabUrl url) s = s"
  using assms by (simp add: step_unchanged sb_handle_def)

lemma sb_inv_step: "sb_inv s \<Longrightarrow> sb_inv (sb_step e s)"
proof (cases e)
  case (TabUrl url)
  assume inv: "sb_inv s"
  show ?thesis
  proof (cases "extractConversationId url = conversationId s")
    case True
    with inv TabUrl show ?thesis by (simp add: step_tab_same)
  next
    case False
    from flush_new_conv(15) [OF inv False extractConversationId_nonempty refl]
    show ?thesis by (simp add: TabUrl sb_step_def sb_handle_def)
  qed
next
  case (TimerFired tm)
  assume inv: "sb_inv s"
  show ?thesis
  proof (cases "tm \<in> fst ` set (timers s)")
    case False
    with inv TimerFired show ?thesis by (simp add: step_timer_cleared)
  next
    case True
    note own = timer_owner [OF inv True]
    show ?thesis
    proof (cases tm)
      case (MetricsInterval g)
      with own inv TimerFired show ?thesis by (simp add: step_metrics_tick)
    next
      case (K2Interval g)
      with own inv TimerFired show ?thesis by (simp add: step_k2_tick)
    next
      case (K2Timeout g)
      with own have g: "k2Mounted s = Some g" by simp
      from True K2Timeout have "K2Timeout g \<in> fst ` set (timers s)" by simp
      from step_k2_verdict(2) [OF inv g handle_k2_timeout [OF g this]]
      show ?thesis by (simp add: TimerFired K2Timeout)
    qed
  qed
next
  case (MetricsArrived g now res)
  assume inv: "sb_inv s"
  show ?thesis
  proof (cases "metricsMounted s \<noteq> Some g \<or> failed_fetch res")
    case True
    with inv MetricsArrived show ?thesis by (simp add: step_metrics_discard)
  next
    case False
    then obtain data where res: "res = Ok data" and m: "metricsMounted s = Some g"
      by (cases res) (auto simp: failed_fetch_def)
    show ?thesis
    proof (cases "escalated data \<and> escalationState s = idle")
      case True
      then have q: "escalated data" "escalationState s = idle"
        by simp_all
      from step_metrics_trigger(2) [OF inv m q] show ?thesis
        by (simp add: MetricsArrived res)
    next
      case False
      then have q: "\<not> escalated data \<or> escalationState s \<noteq> idle"
        by simp
      from step_metrics_quiet [OF inv m q] show ?thesis
        by (simp add: MetricsArrived res)
    qed
  qed
next
  case (K2StatusArrived g res)
  assume inv: "sb_inv s"
  show ?thesis
  proof (cases "k2Mounted s \<noteq> Some g \<or> failed_fetch res")
    case True
    with inv K2StatusArrived show ?thesis by (simp add: step_k2_discard)
  next
    case False
    then obtain data where res: "res = Ok data" and g: "k2Mounted s = Some g"
      by (cases res) (auto simp: failed_fetch_def)
    consider
      (confirmed) "status data = Some ''completed''" "result_type data = Some ''confirmed''"
      | (overridden) "status data = Some ''completed''" "result_type data = Some ''overridden''"
      | (failed) "status data = Some ''failed''"
      | (none) "status data \<noteq> Some ''completed'' \<and> status data \<noteq> Some ''failed'' \<or>
         status data = Some ''completed'' \<and> result_type data \<noteq> Some ''confirmed''
           \<and> result_type data \<noteq> Some ''overridden''"
      by blast
    then show ?thesis
    proof cases
      case confirmed
      from step_k2_verdict(2) [OF inv g handle_k2_confirmed [OF g confirmed]]
      show ?thesis by (simp add: K2StatusArrived res)
    next
      case overridden
      from step_k2_verdict(2) [OF inv g handle_k2_overridden [OF g overridden]]
      show ?thesis by (simp add: K2StatusArrived res)
    next
      case failed
      from step_k2_verdict(2) [OF inv g handle_k2_failed [OF g failed]]
      show ?thesis by (simp add: K2StatusArrived res)
    next
      case none
      with inv show ?thesis by (simp add: K2StatusArrived res step_k2_no_verdict)
    qed
  qed
qed

lemma sb_run_snoc: "sb_run s (evs @ [e]) = sb_step e (sb_run s evs)"
  by (simp add: sb_run_def)

lemma sb_inv_run: "sb_inv s \<Longrightarrow> sb_inv (sb_run s evs)"
proof (induction evs rule: rev_induct)
  case Nil
  then show ?case by (simp add: sb_run_def)
next
  case (snoc e evs)
  then show ?case by (simp add: sb_run_snoc sb_inv_step)
qed

lemma sb_inv_reachable: "sb_inv (sb_run sb_mounted evs)"
  by (rule sb_inv_run) (rule inv_init)


subsection \<open>Example runs\<close>

lemma sb_mounted_eq:
  "sb_mounted = \<lparr>conversationId = [], driftScore = 0, driftVelocity = 0,
    isRecovering = False, activeCommitments = 0, contradictions = 0,
    escalationState = idle, escalationReason = [], k2Confidence = 0,
    k2Explanation = [], escalationStartTimeRef = 0,
    escalationStateRef = idle, prevConversationIdRef = [],
    resetDeps = Some [], metricsDeps = Some [], k2Deps = Some ([], idle),
    metricsMounted = None, k2Mounted = None, timers = [], nextRun = 0,
    requests = []\<rparr>"
  by (simp add: sb_mounted_def sb_init_def flush_def commit_def effects_def Let_def render_def
      resetEffect_def metricsEffect_def k2Effect_def metricsCleanup_def k2Cleanup_def)

lemma extract_abc: "extractConversationId url_abc = ''abc''"
  by (simp add: extractConversationId_def id_char_def url_abc_def)


lemmas sb_eval =
  sb_step_def sb_handle_def flush_def commit_def effects_def Let_def render_def
  resetEffect_def metricsEffect_def k2Effect_def metricsCleanup_def k2Cleanup_def
  METRICS_POLL_INTERVAL_def K2_POLL_INTERVAL_def K2_TIMEOUT_def

lemma run_panel_idle: "sb_run sb_mounted [TabUrl url_abc] = panel_idle"
  by (simp add: sb_run_def sb_mounted_eq extract_abc panel_idle_def sb_eval)

lemma sample_facts:
  "reports_escalation (Ok metrics_calm) = False"
  "reports_escalation (Ok metrics_one) = True"
  "reports_escalation (Ok metrics_two) = True"
  by (simp_all add: reports_escalation_def escalated_def metrics_sample_def metrics_calm_def
      metrics_one_def metrics_two_def)

lemma step_panel_pending:
  "sb_step (MetricsArrived 0 1500 (Ok metrics_one)) panel_idle = panel_pending"
  by (simp add: panel_idle_def panel_pending_def metrics_one_def metrics_sample_def
      pollMetrics_resume_def setMetrics_def escalated_def sb_eval)

lemma run_panel_pending:
  "sb_run sb_mounted [TabUrl url_abc, MetricsArrived 0 1500 (Ok metrics_one)] = panel_pending"
proof -
  have "sb_run sb_mounted [TabUrl url_abc, MetricsArrived 0 1500 (Ok metrics_one)] =
      sb_step (MetricsArrived 0 1500 (Ok metrics_one)) (sb_run sb_mounted [TabUrl url_abc])"
    by (simp only: sb_run_def foldl.simps)
  then show ?thesis
    by (simp only: run_panel_idle step_panel_pending)
qed

lemma panel_fields:
  "escalationState panel_idle = idle" "metricsMounted panel_idle = Some 0"
  "escalationState panel_pending = escalated_pending" "metricsMounted panel_pending = Some 0"
  "k2Mounted panel_pending = Some 1" "conversationId panel_pending = ''abc''"
  "driftScore panel_pending = 1.8" "nextRun panel_pending = 2"
  "escalationState panel_timed_out = k2_failed" "k2Mounted panel_timed_out = None"
  "k2Explanation panel_timed_out = ''K2 reasoning timed out. Heuristic result retained.''"
  "timers panel_timed_out = [(MetricsInterval 0, 1500)]"
  by (simp_all add: panel_idle_def panel_pending_def panel_timed_out_def)

subsection \<open>Polls that carry no result\<close>

text \<open>
  C8. In every state the sidebar can reach, a metrics poll that fails (the request fails,
  the status is not ok, or the body does not parse) changes nothing: the stored snapshot
  and everything else stay as they are, no error is recorded anywhere, and the polling
  interval of 1500 ms of the mounted run stays installed, its next tick issuing the next
  request.
\<close>

theorem metrics_poll_failure_keeps_snapshot:
  assumes "failed_fetch res"
  shows "sb_step (MetricsArrived g now res) (sb_run sb_mounted evs) = sb_run sb_mounted evs \<and>
     (metricsMounted (sb_run sb_mounted evs) = Some g \<longrightarrow>
        (MetricsInterval g, METRICS_POLL_INTERVAL) \<in> set (timers (sb_run sb_mounted evs)) \<and>
        sb_step (TimerFired (MetricsInterval g)) (sb_run sb_mounted evs) =
          (sb_run sb_mounted evs)
            \<lparr>requests := requests (sb_run sb_mounted evs)
                 @ [(g, GetMetrics (conversationId (sb_run sb_mounted evs)))]\<rparr>) \<and>
     METRICS_POLL_INTERVAL = 1500"
proof -
  let ?s = "sb_run sb_mounted evs"
  have inv: "sb_inv ?s"
    by (rule sb_inv_reachable)
  have a: "sb_step (MetricsArrived g now res) ?s = ?s"
    using step_metrics_discard [OF inv] assms by simp
  have b: "(MetricsInterval g, METRICS_POLL_INTERVAL) \<in> set (timers ?s)"
    if "metricsMounted ?s = Some g"
    using inv that by (simp add: sb_inv_def expected_timers_def)
  from a b step_metrics_tick(1) [OF inv] show ?thesis
    by (simp add: METRICS_POLL_INTERVAL_def)
qed

theorem metrics_poll_failure_keeps_snapshot_witness:
  "failed_fetch (NotOk :: MetricsResponse response) \<and>
   driftScore (sb_run sb_mounted [TabUrl url_abc, MetricsArrived 0 1500 (Ok metrics_one)]) = 1.8 \<and>
   sb_step (MetricsArrived 0 3000 NotOk)
     (sb_run sb_mounted [TabUrl url_abc, MetricsArrived 0 1500 (Ok metrics_one)]) = panel_pending \<and>
   (MetricsInterval 0, 1500) \<in> set (timers panel_pending) \<and>
   requests (sb_step (TimerFired (MetricsInterval 0)) panel_pending) =
     [(0, GetMetrics ''abc''), (1, GetK2Status ''abc''), (0, GetMetrics ''abc'')]"
proof -
  have f: "failed_fetch (NotOk :: MetricsResponse response)"
    by (simp add: failed_fetch_def)
  have r: "requests panel_pending = [(0, GetMetrics ''abc''), (1, GetK2Status ''abc'')]"
    by (simp add: panel_pending_def)
  from metrics_poll_failure_keeps_snapshot [OF f, of 0 3000
      "[TabUrl url_abc, MetricsArrived 0 1500 (Ok metrics_one)]"]
  show ?thesis
    unfolding run_panel_pending
    by (simp add: f r panel_fields METRICS_POLL_INTERVAL_def)
qed

text \<open>
  C10. In every state the sidebar can reach, a verification poll that reports the status
  \<open>completed\<close> with a result type that is absent or is neither \<open>confirmed\<close> nor
  \<open>overridden\<close> changes nothing: the escalation state, the stored confidence and
  explanation and the timers stay as they are; in \<open>escalated_pending\<close> the polling run is
  still mounted with its interval, so polling goes on.
\<close>

theorem k2_completed_without_verdict_is_ignored:
  assumes "status data = Some ''completed''"
    and "result_type data \<noteq> Some ''confirmed''" "result_type data \<noteq> Some ''overridden''"
  shows "sb_step (K2StatusArrived g (Ok data)) (sb_run sb_mounted evs) = sb_run sb_mounted evs \<and>
     (escalationState (sb_run sb_mounted evs) = escalated_pending \<longrightarrow>
        (\<exists>g'. k2Mounted (sb_run sb_mounted evs) = Some g' \<and>
              (K2Interval g', K2_POLL_INTERVAL) \<in> set (timers (sb_run sb_mounted evs))))"
proof -
  let ?s = "sb_run sb_mounted evs"
  have inv: "sb_inv ?s"
    by (rule sb_inv_reachable)
  have a: "sb_step (K2StatusArrived g (Ok data)) ?s = ?s"
    using step_k2_no_verdict [OF inv] assms by simp
  have b: "\<exists>g'. k2Mounted ?s = Some g' \<and> (K2Interval g', K2_POLL_INTERVAL) \<in> set (timers ?s)"
    if "escalationState ?s = escalated_pending"
    using inv that by (auto simp: sb_inv_def expected_timers_def)
  from a b show ?thesis by simp
qed

theorem k2_completed_without_verdict_is_ignored_witness:
  "status (k2_sample (Some ''completed'') None) = Some ''completed'' \<and>
   result_type (k2_sample (Some ''completed'') None) = None \<and>
   escalationState panel_pending = escalated_pending \<and>
   sb_step (K2StatusArrived 1 (Ok (k2_sample (Some ''completed'') None)))
     (sb_run sb_mounted [TabUrl url_abc, MetricsArrived 0 1500 (Ok metrics_one)]) = panel_pending \<and>
   k2Mounted panel_pending = Some 1 \<and> (K2Interval 1, 2000) \<in> set (timers panel_pending)"
proof -
  have d: "status (k2_sample (Some ''completed'') None) = Some ''completed''"
    "result_type (k2_sample (Some ''completed'') None) \<noteq> Some ''confirmed''"
    "result_type (k2_sample (Some ''completed'') None) \<noteq> Some ''overridden''"
    "result_type (k2_sample (Some ''completed'') None) = None"
    by (simp_all add: k2_sample_def)
  have t: "timers panel_pending =
      [(MetricsInterval 0, 1500), (K2Interval 1, 2000), (K2Timeout 1, 90000)]"
    by (simp add: panel_pending_def)
  from k2_completed_without_verdict_is_ignored [OF d(1,2,3), of 1
      "[TabUrl url_abc, MetricsArrived 0 1500 (Ok metrics_one)]"]
  show ?thesis
    unfolding run_panel_pending
    by (simp add: d t panel_fields K2_POLL_INTERVAL_def)
qed

section \<open>Properties of the sidebar under every schedule\<close>

subsection \<open>The effect phase, field by field\<close>

lemma cleanup_more_fields:
  "nextRun (metricsCleanup s) = nextRun s" "requests (metricsCleanup s) = requests s"
  "k2Mounted (metricsCleanup s) = k2Mounted s"
  "resetDeps (metricsCleanup s) = resetDeps s" "metricsDeps (metricsCleanup s) = metricsDeps s"
  "k2Deps (metricsCleanup s) = k2Deps s"
  "nextRun (k2Cleanup s) = nextRun s" "requests (k2Cleanup s) = requests s"
  "metricsMounted (k2Cleanup s) = metricsMounted s"
  "resetDeps (k2Cleanup s) = resetDeps s" "metricsDeps (k2Cleanup s) = metricsDeps s"
  "k2Deps (k2Cleanup s) = k2Deps s"
  "metricsMounted (metricsCleanup s) = None" "k2Mounted (k2Cleanup s) = None"
  by (simp_all add: metricsCleanup_def k2Cleanup_def split: option.splits)

lemma resetEffect_more_fields:
  "nextRun (resetEffect c s) = nextRun s" "requests (resetEffect c s) = requests s"
  "timers (resetEffect c s) = timers s"
  "metricsMounted (resetEffect c s) = metricsMounted s" "k2Mounted (resetEffect c s) = k2Mounted s"
  "prevConversationIdRef (resetEffect c s) =
     (if c = [] \<or> c = prevConversationIdRef s then prevConversationIdRef s else c)"
  by (simp_all add: resetEffect_def)

lemma start_fields:
  "k2Mounted (metricsEffect c s) = k2Mounted s"
  "prevConversationIdRef (metricsEffect c s) = prevConversationIdRef s"
  "prevConversationIdRef (k2Effect c e s) = prevConversationIdRef s"
  "metricsMounted (k2Effect c e s) = metricsMounted s"
  "metricsMounted (metricsEffect c s) = (if c = [] then metricsMounted s else Some (nextRun s))"
  "nextRun (metricsEffect c s) = (if c = [] then nextRun s else nextRun s + 1)"
  "k2Mounted (k2Effect c e s) =
     (if c = [] \<or> e \<noteq> escalated_pending then k2Mounted s else Some (nextRun s))"
  "nextRun (k2Effect c e s) =
     (if c = [] \<or> e \<noteq> escalated_pending then nextRun s else nextRun s + 1)"
  by (simp_all add: metricsEffect_def k2Effect_def)

lemmas phase_fields = effect_fields cleanup_more_fields resetEffect_more_fields start_fields

lemma effects_fields:
  "conversationId (effects cid es s) = conversationId s"
  "escalationStateRef (effects cid es s) = escalationStateRef s"
  "resetDeps (effects cid es s) = Some cid"
  "metricsDeps (effects cid es s) = Some cid"
  "k2Deps (effects cid es s) = Some (cid, es)"
  by (simp_all add: effects_def Let_def phase_fields)

lemma effects_escalationState:
  "escalationState (effects cid es s) = (if resets cid s then idle else escalationState s)"
  by (simp add: effects_def Let_def phase_fields resets_def)

lemma effects_metricsMounted:
  "metricsMounted (effects cid es s) =
     (if metricsDeps s = Some cid then metricsMounted s
      else if cid = [] then None else Some (nextRun s))"
  by (simp add: effects_def Let_def phase_fields)

lemma effects_k2Mounted:
  "k2Mounted (effects cid es s) =
     (if k2Deps s = Some (cid, es) then k2Mounted s
      else if cid = [] \<or> es \<noteq> escalated_pending then None
      else Some (if metrics_starts cid s then nextRun s + 1 else nextRun s))"
  by (simp add: effects_def Let_def phase_fields metrics_starts_def)

lemma effects_nextRun:
  "nextRun (effects cid es s) =
     nextRun s + (if metrics_starts cid s then 1 else 0) + (if k2_starts cid es s then 1 else 0)"
  by (simp add: effects_def Let_def phase_fields metrics_starts_def k2_starts_def)

subsection \<open>Callbacks, field by field\<close>

lemma fire_frame:
  "resetDeps (fire tm s) = resetDeps s" "metricsDeps (fire tm s) = metricsDeps s"
  "k2Deps (fire tm s) = k2Deps s" "metricsMounted (fire tm s) = metricsMounted s"
  "k2Mounted (fire tm s) = k2Mounted s" "nextRun (fire tm s) = nextRun s"
  "escalationStateRef (fire tm s) = escalationStateRef s"
  "prevConversationIdRef (fire tm s) = prevConversationIdRef s"
  "conversationId (fire tm s) = conversationId s"
  by (cases tm; simp add: fire_def pollMetrics_def pollK2_def k2Timeout_def)+

lemma handle_frame:
  "resetDeps (sb_handle e s) = resetDeps s" "metricsDeps (sb_handle e s) = metricsDeps s"
  "k2Deps (sb_handle e s) = k2Deps s" "metricsMounted (sb_handle e s) = metricsMounted s"
  "k2Mounted (sb_handle e s) = k2Mounted s" "nextRun (sb_handle e s) = nextRun s"
  "escalationStateRef (sb_handle e s) = escalationStateRef s"
  "prevConversationIdRef (sb_handle e s) = prevConversationIdRef s"
  by (cases e; simp add: sb_handle_def fire_frame pollMetrics_resume_def pollK2_resume_def
      setMetrics_def split: response.splits)+

lemma handle_conversationId:
  "conversationId (sb_handle e s) =
     (case e of TabUrl url \<Rightarrow> extractConversationId url | _ \<Rightarrow> conversationId s)"
  by (cases e; simp add: sb_handle_def fire_frame pollMetrics_resume_def pollK2_resume_def
      setMetrics_def split: response.splits)

lemma handle_timers:
  "timers (sb_handle e s) = timers s \<or>
   (\<exists>g. e = TimerFired (K2Timeout g) \<and>
        timers (sb_handle e s) = filter (\<lambda>x. fst x \<noteq> K2Timeout g) (timers s))"
proof (cases e)
  case (TimerFired tm)
  then show ?thesis
    by (cases tm) (simp_all add: sb_handle_def fire_def pollMetrics_def pollK2_def k2Timeout_def)
qed (simp_all add: sb_handle_def pollMetrics_resume_def pollK2_resume_def setMetrics_def
     split: response.splits)

text \<open>How a callback can change \<^verbatim>\<open>escalationState\<close>.\<close>

lemma handle_escalationState:
  "escalationState (sb_handle e s) = escalationState s \<or>
   (\<exists>g now data. e = MetricsArrived g now (Ok data) \<and> metricsMounted s = Some g \<and> escalated data
       \<and> escalationStateRef s = idle \<and> escalationState (sb_handle e s) = escalated_pending) \<or>
   (\<exists>g res. e = K2StatusArrived g res \<and> k2Mounted s = Some g
       \<and> escalationState (sb_handle e s) \<in> {k2_confirmed, k2_overridden, k2_failed}) \<or>
   (\<exists>g. e = TimerFired (K2Timeout g) \<and> k2Mounted s = Some g
       \<and> K2Timeout g \<in> fst ` set (timers s) \<and> escalationState (sb_handle e s) = k2_failed)"
proof (cases e)
  case (TabUrl url)
  then show ?thesis by (simp add: sb_handle_def)
next
  case (TimerFired tm)
  then show ?thesis
    by (cases tm) (simp_all add: sb_handle_def fire_def pollMetrics_def pollK2_def k2Timeout_def)
next
  case (MetricsArrived g now res)
  then show ?thesis
    by (cases res) (simp_all add: sb_handle_def pollMetrics_resume_def setMetrics_def)
next
  case (K2StatusArrived g res)
  then show ?thesis
    by (cases res) (simp_all add: sb_handle_def pollK2_resume_def)
qed

subsection \<open>The timers of the effect runs\<close>

lemma timers_ok_metricsCleanup: "timers_ok s \<Longrightarrow> timers_ok (metricsCleanup s)"
proof (cases "metricsMounted s")
  case None
  then show "timers_ok s \<Longrightarrow> timers_ok (metricsCleanup s)"
    by (simp add: metricsCleanup_def)
next
  case (Some m)
  assume ok: "timers_ok s"
  let ?s = "s\<lparr>metricsMounted := None,
              timers := filter (\<lambda>tm. fst tm \<noteq> MetricsInterval m) (timers s)\<rparr>"
  have c: "metricsCleanup s = ?s"
    by (simp add: metricsCleanup_def Some)
  from ok have sub: "set (timers s) \<subseteq> expected_timers s"
    and k: "\<And>g. k2Mounted s = Some g \<Longrightarrow>
              g < nextRun s \<and> (K2Interval g, K2_POLL_INTERVAL) \<in> set (timers s)"
    by (simp_all add: timers_ok_def)
  have "x \<in> expected_timers ?s" if "x \<in> set (timers s)" "fst x \<noteq> MetricsInterval m" for x
    using subsetD [OF sub that(1)] that(2)
    by (cases "k2Mounted s") (auto simp: expected_timers_def Some)
  then have 1: "set (timers ?s) \<subseteq> expected_timers ?s"
    by auto
  have 2: "g < nextRun ?s \<and> (K2Interval g, K2_POLL_INTERVAL) \<in> set (timers ?s)"
    if "k2Mounted ?s = Some g" for g
    using k [of g] that by simp
  show "timers_ok (metricsCleanup s)"
    unfolding c timers_ok_def using 1 2 by simp
qed

lemma timers_ok_k2Cleanup: "timers_ok s \<Longrightarrow> timers_ok (k2Cleanup s)"
proof (cases "k2Mounted s")
  case None
  then show "timers_ok s \<Longrightarrow> timers_ok (k2Cleanup s)"
    by (simp add: k2Cleanup_def)
next
  case (Some k)
  assume ok: "timers_ok s"
  let ?s = "s\<lparr>k2Mounted := None,
              timers := filter (\<lambda>tm. fst tm \<noteq> K2Interval k \<and> fst tm \<noteq> K2Timeout k) (timers s)\<rparr>"
  have c: "k2Cleanup s = ?s"
    by (simp add: k2Cleanup_def Some)
  from ok have sub: "set (timers s) \<subseteq> expected_timers s"
    and m: "\<And>g. metricsMounted s = Some g \<Longrightarrow>
              g < nextRun s \<and> (MetricsInterval g, METRICS_POLL_INTERVAL) \<in> set (timers s)"
    by (simp_all add: timers_ok_def)
  have "x \<in> expected_timers ?s"
    if "x \<in> set (timers s)" "fst x \<noteq> K2Interval k" "fst x \<noteq> K2Timeout k" for x
    using subsetD [OF sub that(1)] that(2,3)
    by (cases "metricsMounted s") (auto simp: expected_timers_def Some)
  then have 1: "set (timers ?s) \<subseteq> expected_timers ?s"
    by auto
  have 2: "g < nextRun ?s \<and> (MetricsInterval g, METRICS_POLL_INTERVAL) \<in> set (timers ?s)"
    if "metricsMounted ?s = Some g" for g
    using m [of g] that by simp
  show "timers_ok (k2Cleanup s)"
    unfolding c timers_ok_def using 1 2 by simp
qed

lemma timers_ok_resetEffect: "timers_ok s \<Longrightarrow> timers_ok (resetEffect c s)"
  unfolding timers_ok_def expected_timers_def resetEffect_def by simp

lemma timers_ok_metricsEffect:
  "timers_ok s \<Longrightarrow> metricsMounted s = None \<Longrightarrow> timers_ok (metricsEffect c s)"
  unfolding timers_ok_def expected_timers_def metricsEffect_def
  by (cases "k2Mounted s") (auto simp: less_Suc_eq)

lemma timers_ok_k2Effect:
  "timers_ok s \<Longrightarrow> k2Mounted s = None \<Longrightarrow> timers_ok (k2Effect c e s)"
  unfolding timers_ok_def expected_timers_def k2Effect_def
  by (cases "metricsMounted s") (auto simp: less_Suc_eq)

lemma timers_ok_deps:
  "timers_ok (s\<lparr>resetDeps := a, metricsDeps := b, k2Deps := c\<rparr>) = timers_ok s"
  by (simp add: timers_ok_def expected_timers_def)

lemma timers_ok_effects:
  assumes ok: "timers_ok s"
  shows "timers_ok (effects cid es s)"
proof -
  define s1 where "s1 = (if metricsDeps s \<noteq> Some cid then metricsCleanup s else s)"
  define s2 where "s2 = (if k2Deps s \<noteq> Some (cid, es) then k2Cleanup s1 else s1)"
  define s3 where "s3 = (if resetDeps s \<noteq> Some cid then resetEffect cid s2 else s2)"
  define s4 where "s4 = (if metricsDeps s \<noteq> Some cid then metricsEffect cid s3 else s3)"
  define s5 where "s5 = (if k2Deps s \<noteq> Some (cid, es) then k2Effect cid es s4 else s4)"
  have e: "effects cid es s = s5\<lparr>resetDeps := Some cid, metricsDeps := Some cid, k2Deps := Some (cid, es)\<rparr>"
    by (simp add: effects_def Let_def s1_def s2_def s3_def s4_def s5_def)
  have 1: "timers_ok s1"
    using ok by (simp add: s1_def timers_ok_metricsCleanup)
  have 2: "timers_ok s2"
    using 1 by (simp add: s2_def timers_ok_k2Cleanup)
  have 3: "timers_ok s3"
    using 2 by (simp add: s3_def timers_ok_resetEffect)
  have m3: "metricsMounted s3 = None" if "metricsDeps s \<noteq> Some cid"
    using that by (simp add: s3_def s2_def s1_def phase_fields)
  have 4: "timers_ok s4"
    using 3 m3 by (simp add: s4_def timers_ok_metricsEffect)
  have k4: "k2Mounted s4 = None" if "k2Deps s \<noteq> Some (cid, es)"
    using that by (simp add: s4_def s3_def s2_def phase_fields)
  have 5: "timers_ok s5"
    using 4 k4 by (simp add: s5_def timers_ok_k2Effect)
  then show ?thesis
    by (simp add: e timers_ok_deps)
qed

lemma timers_ok_render: "timers_ok (render s) = timers_ok s"
  by (simp add: timers_ok_def expected_timers_def render_def)

lemma timers_ok_handle:
  assumes ok: "timers_ok s"
  shows "timers_ok (sb_handle e s)"
proof -
  from handle_timers [of e s]
  have sub: "set (timers (sb_handle e s)) \<subseteq> set (timers s)"
    and keep: "x \<in> set (timers s) \<Longrightarrow> (\<forall>g. fst x \<noteq> K2Timeout g) \<Longrightarrow>
               x \<in> set (timers (sb_handle e s))" for x
    by auto
  have ex: "expected_timers (sb_handle e s) = expected_timers s"
    by (simp add: expected_timers_def handle_frame)
  show ?thesis
    unfolding timers_ok_def ex handle_frame
    using ok sub keep unfolding timers_ok_def by (auto intro!: keep)
qed

subsection \<open>What holds of the component under every schedule\<close>

lemma handle_keeps_state:
  "metricsMounted s = None \<Longrightarrow> k2Mounted s = None \<Longrightarrow>
   escalationState (sb_handle e s) = escalationState s"
  using handle_escalationState [of e s] by (elim disjE exE conjE) simp_all

lemma handle_pending:
  "escalationState (sb_handle e s) = escalated_pending \<Longrightarrow>
   escalationState s = escalated_pending \<or> escalationStateRef s = idle \<and> metricsMounted s \<noteq> None"
  using handle_escalationState [of e s] by (elim disjE exE conjE) simp_all

lemma handle_not_idle:
  "escalationState s \<noteq> idle \<Longrightarrow> escalationState (sb_handle e s) \<noteq> idle"
  using handle_escalationState [of e s] by (elim disjE exE conjE) auto

lemma handle_conv_empty: "conversationId (sb_handle e s) = [] \<Longrightarrow> conversationId s = []"
  by (cases e) (simp_all add: handle_conversationId extractConversationId_nonempty)

lemma root_invD:
  assumes "root_inv d"
  shows "timers_ok (sidebar_of d)" "deps_ok (sidebar_of d)" "fresh_ok (sidebar_of d)"
    "edge_ok (sidebar_of d)" "conv_ok d" "passive_ok d" "flushed_ok d"
  using assms by (simp_all add: root_inv_def)

lemma root_inv_init: "root_inv root_init"
  by (simp add: root_inv_def root_init_def sb_init_def timers_ok_def expected_timers_def
      deps_ok_def fresh_ok_def edge_ok_def conv_ok_def passive_ok_def flushed_ok_def
      metricsClosure_def)

lemma root_inv_callback:
  assumes inv: "root_inv d"
  shows "root_inv (d\<lparr>sidebar_of := sb_handle e (sidebar_of d)\<rparr>)"
proof -
  let ?s = "sidebar_of d" and ?h = "sb_handle e (sidebar_of d)"
  note i = root_invD [OF inv]
  have unmounted: "metricsMounted ?s = None" "k2Mounted ?s = None" if "metricsDeps ?s = None" "k2Deps ?s = None"
    using i(2) that by (auto simp: deps_ok_def)
  have 1: "timers_ok ?h"
    by (rule timers_ok_handle [OF i(1)])
  have 2: "deps_ok ?h"
    using i(2) by (simp add: deps_ok_def handle_frame)
  have 3: "fresh_ok ?h"
    using i(3) unmounted by (auto simp: fresh_ok_def handle_frame handle_keeps_state)
  have 4: "edge_ok ?h"
    using i(4) handle_pending [of e ?s] by (auto simp: edge_ok_def handle_frame)
  have closure: "metricsClosure ?h = metricsClosure ?s"
    by (simp add: metricsClosure_def handle_frame)
  have np: "escalationState ?h \<noteq> escalated_pending" if "conversationId ?s = []"
  proof -
    from i(5) that have a: "escalationState ?s \<noteq> escalated_pending"
      and b: "metricsClosure ?s = []"
      by (simp_all add: conv_ok_def)
    from b i(2) have "metricsMounted ?s = None"
      by (auto simp: deps_ok_def metricsClosure_def)
    with a handle_pending [of e ?s] show ?thesis
      by auto
  qed
  have 5: "conv_ok (d\<lparr>sidebar_of := ?h\<rparr>)"
  proof -
    have "escalationState ?h \<noteq> escalated_pending \<and> metricsClosure ?h = [] \<and>
        (\<forall>r. pendingPassive d = Some r \<longrightarrow> fst r = [])"
      if "conversationId ?h = []"
    proof -
      from that have c: "conversationId ?s = []"
        by (rule handle_conv_empty)
      from i(5) c have "metricsClosure ?s = []" "\<forall>r. pendingPassive d = Some r \<longrightarrow> fst r = []"
        by (simp_all add: conv_ok_def)
      with np [OF c] show ?thesis
        by (simp add: closure)
    qed
    then show ?thesis
      by (simp add: conv_ok_def)
  qed
  have 6: "passive_ok (d\<lparr>sidebar_of := ?h\<rparr>)"
    using i(6) by (simp add: passive_ok_def handle_frame)
  have 7: "flushed_ok (d\<lparr>sidebar_of := ?h\<rparr>)"
    using i(7) by (simp add: flushed_ok_def handle_frame)
  from 1 2 3 4 5 6 7 show ?thesis
    by (simp add: root_inv_def)
qed

lemma root_inv_effects:
  assumes inv: "root_inv d"
  shows "root_inv (flushPassiveEffects d)"
proof (cases "pendingPassive d")
  case None
  with inv show ?thesis by (simp add: flushPassiveEffects_def)
next
  case (Some r)
  obtain cid es where r: "r = (cid, es)"
    by (cases r)
  let ?s = "sidebar_of d" and ?d = "\<lparr>sidebar_of = effects cid es (sidebar_of d), pendingPassive = None\<rparr>"
  have f: "flushPassiveEffects d = ?d"
    by (simp add: flushPassiveEffects_def Some r)
  note i = root_invD [OF inv]
  from i(6) have p: "es = escalationStateRef ?s" "es = escalated_pending \<Longrightarrow> cid \<noteq> []"
    by (simp_all add: passive_ok_def Some r)
  have 1: "timers_ok (effects cid es ?s)"
    by (rule timers_ok_effects [OF i(1)])
  have 2: "deps_ok (effects cid es ?s)"
    using i(2)
    by (simp add: deps_ok_def effects_fields effects_metricsMounted effects_k2Mounted)
  have 3: "fresh_ok (effects cid es ?s)"
    by (simp add: fresh_ok_def effects_fields)
  have 4: "edge_ok (effects cid es ?s)"
    using i(4) by (simp add: edge_ok_def effects_fields effects_escalationState)
  have 5: "conv_ok ?d"
    using i(5)
    by (simp add: conv_ok_def effects_fields effects_escalationState Some r metricsClosure_def)
  have 6: "passive_ok ?d"
    by (simp add: passive_ok_def)
  have 7: "flushed_ok ?d"
    using p by (simp add: flushed_ok_def effects_fields)
  from 1 2 3 4 5 6 7 show ?thesis
    by (simp add: f root_inv_def)
qed

lemma root_inv_render_only:
  assumes inv: "root_inv d"
  shows "root_inv \<lparr>sidebar_of = render (sidebar_of d),
     pendingPassive = Some (conversationId (sidebar_of d), escalationState (sidebar_of d))\<rparr>"
proof -
  note i = root_invD [OF inv]
  have 1: "timers_ok (render (sidebar_of d))"
    using i(1) by (simp add: timers_ok_render)
  have 2: "deps_ok (render (sidebar_of d))"
    using i(2) by (simp add: deps_ok_def render_def)
  have 3: "fresh_ok (render (sidebar_of d))"
    using i(3) by (simp add: fresh_ok_def render_def)
  have 4: "edge_ok (render (sidebar_of d))"
    by (simp add: edge_ok_def render_def)
  have 5: "conv_ok \<lparr>sidebar_of = render (sidebar_of d),
      pendingPassive = Some (conversationId (sidebar_of d), escalationState (sidebar_of d))\<rparr>"
    using i(5) by (simp add: conv_ok_def render_def metricsClosure_def)
  have 6: "passive_ok \<lparr>sidebar_of = render (sidebar_of d),
      pendingPassive = Some (conversationId (sidebar_of d), escalationState (sidebar_of d))\<rparr>"
    using i(5) by (auto simp: passive_ok_def conv_ok_def render_def)
  from 1 2 3 4 5 6 show ?thesis
    by (simp add: root_inv_def flushed_ok_def)
qed

lemma renderRoot_eq:
  "renderRoot d =
     \<lparr>sidebar_of = render (sidebar_of (flushPassiveEffects d)),
      pendingPassive = Some (conversationId (sidebar_of (flushPassiveEffects d)),
                             escalationState (sidebar_of (flushPassiveEffects d)))\<rparr>"
  by (simp add: renderRoot_def Let_def render_def)

lemma root_inv_step: "root_inv d \<Longrightarrow> root_inv (root_step t d)"
proof (cases t)
  case (Callback e)
  then show "root_inv d \<Longrightarrow> root_inv (root_step t d)"
    by (simp add: root_step_def root_inv_callback)
next
  case Render
  then show "root_inv d \<Longrightarrow> root_inv (root_step t d)"
    by (simp add: root_step_def renderRoot_eq root_inv_render_only root_inv_effects)
next
  case Effects
  then show "root_inv d \<Longrightarrow> root_inv (root_step t d)"
    by (simp add: root_step_def root_inv_effects)
qed

lemma root_run_Nil: "root_run d [] = d"
  by (simp add: root_run_def)

lemma root_run_Cons: "root_run d (t # tasks) = root_run (root_step t d) tasks"
  by (simp add: root_run_def)

lemma root_run_append: "root_run d (tasks @ tasks') = root_run (root_run d tasks) tasks'"
  by (simp add: root_run_def)

lemma root_inv_run: "root_inv d \<Longrightarrow> root_inv (root_run d tasks)"
  by (induction tasks arbitrary: d) (simp_all add: root_run_Nil root_run_Cons root_inv_step)

lemma root_inv_reachable: "root_inv (root_run root_init tasks)"
  by (rule root_inv_run [OF root_inv_init])

subsection \<open>The schedule that commits at once\<close>

lemma commit_effects: "commit s = effects (conversationId s) (escalationState s) (render s)"
  by (simp add: commit_def Let_def render_def)

lemma sb_step_schedule:
  "root_run \<lparr>sidebar_of = s, pendingPassive = None\<rparr> [Callback e, Render, Effects, Render, Effects]
     = \<lparr>sidebar_of = sb_step e s, pendingPassive = None\<rparr>"
  by (simp add: root_run_def root_step_def renderRoot_def flushPassiveEffects_def Let_def
      sb_step_def flush_def commit_effects render_def)

text \<open>
  So the states that \<open>sb_run\<close> reaches are states that the root reaches, on the schedule
  \<open>immediate\<close>.
\<close>

lemma sb_run_schedule:
  "root_run \<lparr>sidebar_of = s, pendingPassive = None\<rparr> (immediate evs)
     = \<lparr>sidebar_of = sb_run s evs, pendingPassive = None\<rparr>"
proof (induction evs arbitrary: s)
  case Nil
  then show ?case by (simp add: immediate_def root_run_Nil sb_run_def)
next
  case (Cons e evs)
  have "immediate (e # evs) = [Callback e, Render, Effects, Render, Effects] @ immediate evs"
    by (simp add: immediate_def)
  then have "root_run \<lparr>sidebar_of = s, pendingPassive = None\<rparr> (immediate (e # evs)) =
      root_run \<lparr>sidebar_of = sb_step e s, pendingPassive = None\<rparr> (immediate evs)"
    by (simp only: root_run_append sb_step_schedule)
  also have "\<dots> = \<lparr>sidebar_of = sb_run (sb_step e s) evs, pendingPassive = None\<rparr>"
    by (rule Cons.IH)
  finally show ?case
    by (simp add: sb_run_def)
qed

lemma sb_mounted_schedule:
  "root_run root_init [Render, Effects, Render, Effects]
     = \<lparr>sidebar_of = sb_mounted, pendingPassive = None\<rparr>"
  by (simp add: root_run_def root_step_def renderRoot_def flushPassiveEffects_def Let_def
      root_init_def sb_mounted_def flush_def commit_effects render_def)

lemma sb_run_reachable:
  "root_run root_init ([Render, Effects, Render, Effects] @ immediate evs)
     = \<lparr>sidebar_of = sb_run sb_mounted evs, pendingPassive = None\<rparr>"
  by (simp only: root_run_append sb_mounted_schedule sb_run_schedule)

subsection \<open>A component that stays on its conversation\<close>

lemma is_tab_task_simps:
  "is_tab_task (Callback e) = is_tab e" "is_tab_task Render = False" "is_tab_task Effects = False"
  by (simp_all add: is_tab_task_def)

lemma handle_conv_same: "\<not> is_tab e \<Longrightarrow> conversationId (sb_handle e s) = conversationId s"
  by (cases e) (simp_all add: handle_conversationId is_tab_def)

lemma effects_no_reset:
  "resetDeps s = Some cid \<Longrightarrow> escalationState (effects cid es s) = escalationState s"
  by (simp add: effects_escalationState resets_def)

lemma settled_flush:
  assumes "settled d"
  shows "settled (flushPassiveEffects d)"
    and "escalationState (sidebar_of (flushPassiveEffects d)) = escalationState (sidebar_of d)"
    and "conversationId (sidebar_of (flushPassiveEffects d)) = conversationId (sidebar_of d)"
    and "escalationStateRef (sidebar_of (flushPassiveEffects d)) = escalationStateRef (sidebar_of d)"
    and "metricsMounted (sidebar_of (flushPassiveEffects d)) = metricsMounted (sidebar_of d)"
  using assms
  by (cases "pendingPassive d";
      simp add: settled_def flushPassiveEffects_def effects_fields effects_no_reset
        effects_metricsMounted)+

lemma settled_step:
  assumes s: "settled d" and t: "\<not> is_tab_task t"
  shows "settled (root_step t d)"
    and "conversationId (sidebar_of (root_step t d)) = conversationId (sidebar_of d)"
    and "metricsMounted (sidebar_of (root_step t d)) = metricsMounted (sidebar_of d)"
proof -
  have "settled (root_step t d) \<and>
      conversationId (sidebar_of (root_step t d)) = conversationId (sidebar_of d) \<and>
      metricsMounted (sidebar_of (root_step t d)) = metricsMounted (sidebar_of d)"
  proof (cases t)
    case (Callback e)
    with s t show ?thesis
      by (simp add: root_step_def settled_def handle_frame handle_conv_same is_tab_task_simps)
  next
    case Render
    with settled_flush [OF s] show ?thesis
      by (simp add: root_step_def renderRoot_eq settled_def render_def)
  next
    case Effects
    with settled_flush [OF s] show ?thesis
      by (simp add: root_step_def)
  qed
  then show "settled (root_step t d)"
    and "conversationId (sidebar_of (root_step t d)) = conversationId (sidebar_of d)"
    and "metricsMounted (sidebar_of (root_step t d)) = metricsMounted (sidebar_of d)"
    by simp_all
qed

lemma rendered_step:
  "rendered (root_step t d) =
     (case t of Render \<Rightarrow> escalationState (sidebar_of (flushPassiveEffects d)) | _ \<Rightarrow> rendered d)"
proof (cases t)
  case (Callback e)
  then show ?thesis by (simp add: root_step_def rendered_def handle_frame)
next
  case Render
  then show ?thesis by (simp add: root_step_def rendered_def renderRoot_eq render_def)
next
  case Effects
  then show ?thesis
    by (cases "pendingPassive d")
      (simp_all add: root_step_def rendered_def flushPassiveEffects_def effects_fields)
qed

lemma at_idle_watching:
  assumes a: "at_idle d" and inv: "root_inv d"
  shows "watching d"
proof -
  note i = root_invD [OF inv]
  from a have p: "pendingPassive d = None" and r: "escalationStateRef (sidebar_of d) = idle"
    by (simp_all add: at_idle_def rendered_def)
  have "k2Mounted (sidebar_of d) = None"
  proof (rule ccontr)
    assume "k2Mounted (sidebar_of d) \<noteq> None"
    with i(2) obtain c where "k2Deps (sidebar_of d) = Some (c, escalated_pending)"
      by (auto simp: deps_ok_def)
    with i(7) p r show False
      by (simp add: flushed_ok_def)
  qed
  with a inv show ?thesis
    by (simp add: watching_def at_idle_def)
qed

lemma watching_step:
  assumes w: "watching d" and t: "\<not> is_tab_task t"
  shows "watching (root_step t d)"
proof -
  let ?s = "sidebar_of d" and ?d = "root_step t d"
  from w have s: "settled d" and inv: "root_inv d"
    and v1: "rendered d = idle \<Longrightarrow> k2Mounted ?s = None"
    and v2: "rendered d = idle \<Longrightarrow> escalationState ?s = idle \<or> escalationState ?s = escalated_pending"
    and v3: "rendered d \<noteq> idle \<Longrightarrow> escalationState ?s \<noteq> idle"
    by (simp_all add: watching_def)
  note i = root_invD [OF inv]
  have s': "settled ?d" and inv': "root_inv ?d"
    by (rule settled_step [OF s t], rule root_inv_step [OF inv])
  have "(rendered ?d = idle \<longrightarrow> k2Mounted (sidebar_of ?d) = None \<and>
           (escalationState (sidebar_of ?d) = idle \<or> escalationState (sidebar_of ?d) = escalated_pending)) \<and>
        (rendered ?d \<noteq> idle \<longrightarrow> escalationState (sidebar_of ?d) \<noteq> idle)"
  proof (cases t)
    case (Callback e)
    have r: "rendered ?d = rendered d"
      by (simp add: rendered_step Callback)
    have st: "sidebar_of ?d = sb_handle e ?s"
      by (simp add: Callback root_step_def)
    have a: "k2Mounted (sb_handle e ?s) = None" if "rendered d = idle"
      using v1 [OF that] by (simp add: handle_frame)
    have b: "escalationState (sb_handle e ?s) = idle \<or> escalationState (sb_handle e ?s) = escalated_pending"
      if "rendered d = idle"
      using v1 [OF that] v2 [OF that] handle_escalationState [of e ?s]
      by (elim disjE exE conjE) simp_all
    have c: "escalationState (sb_handle e ?s) \<noteq> idle" if "rendered d \<noteq> idle"
      using v3 [OF that] by (rule handle_not_idle)
    from a b c show ?thesis
      unfolding r st by blast
  next
    case Render
    have st: "escalationState (sidebar_of ?d) = escalationState ?s"
      "k2Mounted (sidebar_of ?d) = k2Mounted (sidebar_of (flushPassiveEffects d))"
      using settled_flush [OF s] by (simp_all add: Render root_step_def renderRoot_eq render_def)
    have r: "rendered ?d = escalationState ?s"
      using settled_flush [OF s] by (simp add: rendered_step Render)
    have k: "k2Mounted (sidebar_of (flushPassiveEffects d)) = None" if "escalationState ?s = idle"
    proof -
      from that v3 have ri: "rendered d = idle"
        by blast
      show ?thesis
      proof (cases "pendingPassive d")
        case None
        with v1 [OF ri] show ?thesis by (simp add: flushPassiveEffects_def)
      next
        case (Some p)
        with i(6) ri have "snd p = idle"
          by (simp add: passive_ok_def rendered_def)
        with v1 [OF ri] Some show ?thesis
          by (cases p) (simp add: flushPassiveEffects_def effects_k2Mounted)
      qed
    qed
    from k show ?thesis
      unfolding r st by simp
  next
    case Effects
    have r: "rendered ?d = rendered d"
      by (simp add: rendered_step Effects)
    have st: "escalationState (sidebar_of ?d) = escalationState ?s"
      using settled_flush [OF s] by (simp add: Effects root_step_def)
    have k: "k2Mounted (sidebar_of ?d) = None" if ri: "rendered d = idle"
    proof (cases "pendingPassive d")
      case None
      with v1 [OF ri] show ?thesis by (simp add: Effects root_step_def flushPassiveEffects_def)
    next
      case (Some p)
      with i(6) ri have "snd p = idle"
        by (simp add: passive_ok_def rendered_def)
      with v1 [OF ri] Some show ?thesis
        by (cases p) (simp add: Effects root_step_def flushPassiveEffects_def effects_k2Mounted)
    qed
    from k v2 v3 show ?thesis
      unfolding r st by blast
  qed
  with s' inv' show ?thesis
    by (simp add: watching_def)
qed

lemma watching_rendered_step:
  assumes w: "watching d" and t: "\<not> is_tab_task t"
  shows "rendered d = idle \<Longrightarrow>
           rendered (root_step t d) = idle \<or> rendered (root_step t d) = escalated_pending"
    and "rendered d \<noteq> idle \<Longrightarrow> rendered (root_step t d) \<noteq> idle"
    and "rendered d \<noteq> idle \<Longrightarrow> rendered (root_step t d) = escalated_pending \<Longrightarrow>
           rendered d = escalated_pending"
proof -
  let ?s = "sidebar_of d"
  from w have s: "settled d" and inv: "root_inv d"
    and v2: "rendered d = idle \<Longrightarrow> escalationState ?s = idle \<or> escalationState ?s = escalated_pending"
    and v3: "rendered d \<noteq> idle \<Longrightarrow> escalationState ?s \<noteq> idle"
    by (simp_all add: watching_def)
  from root_invD(4) [OF inv]
  have e: "escalationState ?s = escalated_pending \<Longrightarrow>
      rendered d = idle \<or> rendered d = escalated_pending"
    by (simp add: edge_ok_def rendered_def)
  have r: "rendered (root_step t d) = rendered d \<or> rendered (root_step t d) = escalationState ?s"
    using settled_flush(2) [OF s] by (cases t) (simp_all add: rendered_step)
  show "rendered d = idle \<Longrightarrow>
           rendered (root_step t d) = idle \<or> rendered (root_step t d) = escalated_pending"
    using r v2 by auto
  show "rendered d \<noteq> idle \<Longrightarrow> rendered (root_step t d) \<noteq> idle"
    using r v3 by auto
  show "rendered d \<noteq> idle \<Longrightarrow> rendered (root_step t d) = escalated_pending \<Longrightarrow>
           rendered d = escalated_pending"
    using r e by auto
qed

lemma watching_run:
  "watching d \<Longrightarrow> \<forall>t \<in> set tasks. \<not> is_tab_task t \<Longrightarrow> watching (root_run d tasks)"
  by (induction tasks arbitrary: d) (simp_all add: root_run_Nil root_run_Cons watching_step)

lemma watching_left_idle:
  "watching d \<Longrightarrow> \<forall>t \<in> set tasks. \<not> is_tab_task t \<Longrightarrow> rendered d \<noteq> idle \<Longrightarrow>
   rendered (root_run d tasks) \<noteq> idle"
  by (induction tasks arbitrary: d)
    (simp_all add: root_run_Nil root_run_Cons watching_step watching_rendered_step)

lemma watching_triggers:
  "watching d \<Longrightarrow> \<forall>t \<in> set tasks. \<not> is_tab_task t \<Longrightarrow>
   triggers (map rendered (root_states d tasks)) =
     (if rendered d = idle \<and> rendered (root_run d tasks) \<noteq> idle then 1 else 0)"
proof (induction tasks arbitrary: d)
  case Nil
  then show ?case by (simp add: root_run_Nil)
next
  case (Cons t tasks)
  let ?d = "root_step t d"
  from Cons.prems have t: "\<not> is_tab_task t" and ts: "\<forall>t \<in> set tasks. \<not> is_tab_task t"
    by simp_all
  have w: "watching ?d"
    by (rule watching_step [OF Cons.prems(1) t])
  note ih = Cons.IH [OF w ts]
  note r = watching_rendered_step [OF Cons.prems(1) t]
  have st: "map rendered (root_states ?d tasks) =
      rendered ?d # map rendered (tl (root_states ?d tasks))"
    by (cases tasks) simp_all
  have tr: "triggers (map rendered (root_states d (t # tasks))) =
      (if rendered d = idle \<and> rendered ?d = escalated_pending then 1 else 0) +
      triggers (map rendered (root_states ?d tasks))"
    by (simp add: st)
  show ?case
    unfolding tr root_run_Cons ih
  proof (cases "rendered d = idle")
    case True
    from r(1) [OF True] show "(if rendered d = idle \<and> rendered ?d = escalated_pending then 1 else 0) +
        (if rendered ?d = idle \<and> rendered (root_run ?d tasks) \<noteq> idle then 1 else 0) =
        (if rendered d = idle \<and> rendered (root_run ?d tasks) \<noteq> idle then 1 else (0::nat))"
    proof
      assume "rendered ?d = idle"
      with True show ?thesis
        by simp
    next
      assume p: "rendered ?d = escalated_pending"
      then have "rendered (root_run ?d tasks) \<noteq> idle"
        by (intro watching_left_idle [OF w ts]) simp
      with True p show ?thesis
        by simp
    qed
  next
    case False
    with r(2) [OF False] show "(if rendered d = idle \<and> rendered ?d = escalated_pending then 1 else 0) +
        (if rendered ?d = idle \<and> rendered (root_run ?d tasks) \<noteq> idle then 1 else 0) =
        (if rendered d = idle \<and> rendered (root_run ?d tasks) \<noteq> idle then 1 else (0::nat))"
      by simp
  qed
qed

lemma watching_state_left_idle:
  "watching d \<Longrightarrow> \<forall>t \<in> set tasks. \<not> is_tab_task t \<Longrightarrow>
   escalationState (sidebar_of d) \<noteq> idle \<Longrightarrow>
   escalationState (sidebar_of (root_run d tasks)) \<noteq> idle"
proof (induction tasks arbitrary: d)
  case Nil
  then show ?case by (simp add: root_run_Nil)
next
  case (Cons t tasks)
  from Cons.prems have t: "\<not> is_tab_task t" and ts: "\<forall>t \<in> set tasks. \<not> is_tab_task t"
    and s: "settled d"
    by (simp_all add: watching_def)
  have "escalationState (sidebar_of (root_step t d)) \<noteq> idle"
  proof (cases t)
    case (Callback e)
    with Cons.prems(3) show ?thesis
      by (simp add: root_step_def handle_not_idle)
  next
    case Render
    with Cons.prems(3) settled_flush(2) [OF s] show ?thesis
      by (simp add: root_step_def renderRoot_eq render_def)
  next
    case Effects
    with Cons.prems(3) settled_flush(2) [OF s] show ?thesis
      by (simp add: root_step_def)
  qed
  from Cons.IH [OF watching_step [OF Cons.prems(1) t] ts this] show ?case
    by (simp add: root_run_Cons)
qed

lemma watching_mounted_run:
  "watching d \<Longrightarrow> \<forall>t \<in> set tasks. \<not> is_tab_task t \<Longrightarrow>
   metricsMounted (sidebar_of (root_run d tasks)) = metricsMounted (sidebar_of d)"
proof (induction tasks arbitrary: d)
  case Nil
  then show ?case by (simp add: root_run_Nil)
next
  case (Cons t tasks)
  from Cons.prems have t: "\<not> is_tab_task t" and ts: "\<forall>t \<in> set tasks. \<not> is_tab_task t"
    and s: "settled d"
    by (simp_all add: watching_def)
  from Cons.IH [OF watching_step [OF Cons.prems(1) t] ts] settled_step(3) [OF s t]
  show ?case
    by (simp add: root_run_Cons)
qed

text \<open>
  A poll that reports an escalation, of the mounted run, leaves the state variable outside
  \<open>idle\<close>; the next render shows it.
\<close>

lemma watching_escalated_poll:
  assumes w: "watching d" and m: "metricsMounted (sidebar_of d) = Some g"
    and r: "reports_escalation res"
  shows "escalationState (sidebar_of (root_step (Callback (MetricsArrived g now res)) d)) \<noteq> idle"
proof (cases "rendered d = idle")
  case True
  from r obtain data where res: "res = Ok data" and e: "escalated data"
    by (cases res) (simp_all add: reports_escalation_def)
  from True m e show ?thesis
    by (simp add: root_step_def sb_handle_def pollMetrics_resume_def res rendered_def)
next
  case False
  with w have "escalationState (sidebar_of d) \<noteq> idle"
    by (simp add: watching_def)
  then show ?thesis
    by (simp add: root_step_def handle_not_idle)
qed

lemma watching_render_shows:
  assumes w: "watching d" and n: "escalationState (sidebar_of d) \<noteq> idle"
  shows "rendered (root_step Render d) \<noteq> idle"
  using w n settled_flush(2) [of d] by (simp add: rendered_step watching_def)

lemma watching_poll_then_render:
  assumes w: "watching d"
    and tasks: "tasks = pre @ Callback (MetricsArrived g now res) # mid @ Render # post"
    and quiet: "\<forall>t \<in> set tasks. \<not> is_tab_task t"
    and m: "metricsMounted (sidebar_of d) = Some g" and r: "reports_escalation res"
  shows "rendered (root_run d tasks) \<noteq> idle"
proof -
  from quiet have q: "\<forall>t \<in> set pre. \<not> is_tab_task t" "\<forall>t \<in> set mid. \<not> is_tab_task t"
    "\<forall>t \<in> set post. \<not> is_tab_task t"
    by (simp_all add: tasks)
  let ?d1 = "root_run d pre"
  let ?d2 = "root_step (Callback (MetricsArrived g now res)) ?d1"
  let ?d3 = "root_run ?d2 mid"
  let ?d4 = "root_step Render ?d3"
  have w1: "watching ?d1"
    by (rule watching_run [OF w q(1)])
  have m1: "metricsMounted (sidebar_of ?d1) = Some g"
    by (simp add: watching_mounted_run [OF w q(1)] m)
  have w2: "watching ?d2"
    by (rule watching_step [OF w1]) (simp add: is_tab_task_simps is_tab_def)
  have n2: "escalationState (sidebar_of ?d2) \<noteq> idle"
    by (rule watching_escalated_poll [OF w1 m1 r])
  have w3: "watching ?d3"
    by (rule watching_run [OF w2 q(2)])
  have n3: "escalationState (sidebar_of ?d3) \<noteq> idle"
    by (rule watching_state_left_idle [OF w2 q(2) n2])
  have w4: "watching ?d4"
    by (rule watching_step [OF w3]) (simp add: is_tab_task_simps)
  have n4: "rendered ?d4 \<noteq> idle"
    by (rule watching_render_shows [OF w3 n3])
  have "root_run d tasks = root_run ?d4 post"
    by (simp add: tasks root_run_append root_run_Cons)
  with watching_left_idle [OF w4 q(3) n4] show ?thesis
    by simp
qed

subsection \<open>Effect runs, their timers and their responses\<close>

lemma timer_owner_ok:
  assumes ok: "timers_ok s" and tm: "tm \<in> fst ` set (timers s)"
  shows "tm = K2Interval g \<Longrightarrow> k2Mounted s = Some g"
    and "tm = K2Timeout g \<Longrightarrow> k2Mounted s = Some g"
    and "tm = MetricsInterval g \<Longrightarrow> metricsMounted s = Some g"
proof -
  from tm obtain p where "(tm, p) \<in> set (timers s)"
    by force
  with ok have e: "(tm, p) \<in> expected_timers s"
    by (auto simp: timers_ok_def)
  show "tm = K2Interval g \<Longrightarrow> k2Mounted s = Some g"
    using e by (cases "metricsMounted s"; cases "k2Mounted s") (auto simp: expected_timers_def)
  show "tm = K2Timeout g \<Longrightarrow> k2Mounted s = Some g"
    using e by (cases "metricsMounted s"; cases "k2Mounted s") (auto simp: expected_timers_def)
  show "tm = MetricsInterval g \<Longrightarrow> metricsMounted s = Some g"
    using e by (cases "metricsMounted s"; cases "k2Mounted s") (auto simp: expected_timers_def)
qed

lemma callback_timeout:
  assumes ok: "timers_ok (sidebar_of d)" and tm: "K2Timeout g \<in> fst ` set (timers (sidebar_of d))"
  shows "k2Mounted (sidebar_of d) = Some g"
    and "root_step (Callback (TimerFired (K2Timeout g))) d =
      d\<lparr>sidebar_of := (sidebar_of d)
          \<lparr>timers := filter (\<lambda>x. fst x \<noteq> K2Timeout g) (timers (sidebar_of d)),
           escalationState := k2_failed,
           k2Explanation := ''K2 reasoning timed out. Heuristic result retained.''\<rparr>\<rparr>"
proof -
  show m: "k2Mounted (sidebar_of d) = Some g"
    by (rule timer_owner_ok(2) [OF ok tm refl])
  show "root_step (Callback (TimerFired (K2Timeout g))) d =
      d\<lparr>sidebar_of := (sidebar_of d)
          \<lparr>timers := filter (\<lambda>x. fst x \<noteq> K2Timeout g) (timers (sidebar_of d)),
           escalationState := k2_failed,
           k2Explanation := ''K2 reasoning timed out. Heuristic result retained.''\<rparr>\<rparr>"
    using tm m by (simp add: root_step_def sb_handle_def fire_def k2Timeout_def)
qed

lemma callback_unmounted:
  assumes "k2Mounted (sidebar_of d) \<noteq> Some g"
  shows "root_step (Callback (K2StatusArrived g res)) d = d"
    and "timers_ok (sidebar_of d) \<Longrightarrow> root_step (Callback (TimerFired (K2Interval g))) d = d"
    and "timers_ok (sidebar_of d) \<Longrightarrow> root_step (Callback (TimerFired (K2Timeout g))) d = d"
proof -
  show "root_step (Callback (K2StatusArrived g res)) d = d"
    using assms by (simp add: root_step_def sb_handle_def pollK2_resume_def)
  show "root_step (Callback (TimerFired (K2Interval g))) d = d" if ok: "timers_ok (sidebar_of d)"
    using assms by (simp add: root_step_def sb_handle_def fire_def pollK2_def)
  show "root_step (Callback (TimerFired (K2Timeout g))) d = d" if ok: "timers_ok (sidebar_of d)"
  proof -
    have "K2Timeout g \<notin> fst ` set (timers (sidebar_of d))"
      using timer_owner_ok(2) [OF ok _ refl, of g] assms by blast
    then show ?thesis
      by (simp add: root_step_def sb_handle_def fire_def)
  qed
qed

text \<open>Run numbers are not used twice.\<close>

lemma effects_new_timers:
  assumes "x \<in> set (timers (effects cid es s))"
  shows "x \<in> set (timers s) \<or>
     (\<exists>k. nextRun s \<le> k \<and> (fst x = MetricsInterval k \<or> fst x = K2Interval k \<or> fst x = K2Timeout k))"
proof -
  define s1 where "s1 = (if metricsDeps s \<noteq> Some cid then metricsCleanup s else s)"
  define s2 where "s2 = (if k2Deps s \<noteq> Some (cid, es) then k2Cleanup s1 else s1)"
  define s3 where "s3 = (if resetDeps s \<noteq> Some cid then resetEffect cid s2 else s2)"
  define s4 where "s4 = (if metricsDeps s \<noteq> Some cid then metricsEffect cid s3 else s3)"
  define s5 where "s5 = (if k2Deps s \<noteq> Some (cid, es) then k2Effect cid es s4 else s4)"
  have e: "effects cid es s = s5\<lparr>resetDeps := Some cid, metricsDeps := Some cid, k2Deps := Some (cid, es)\<rparr>"
    by (simp add: effects_def Let_def s1_def s2_def s3_def s4_def s5_def)
  have 1: "set (timers s1) \<subseteq> set (timers s)"
    by (auto simp: s1_def metricsCleanup_def split: option.splits)
  have 2: "set (timers s2) \<subseteq> set (timers s1)"
    by (auto simp: s2_def k2Cleanup_def split: option.splits)
  have 3: "timers s3 = timers s2"
    by (simp add: s3_def phase_fields)
  have n3: "nextRun s3 = nextRun s"
    by (simp add: s3_def s2_def s1_def phase_fields)
  have 4: "y \<in> set (timers s4) \<Longrightarrow> y \<in> set (timers s3) \<or> fst y = MetricsInterval (nextRun s)" for y
    by (auto simp: s4_def metricsEffect_def n3 split: if_splits)
  have n4: "nextRun s \<le> nextRun s4"
    by (simp add: s4_def phase_fields n3)
  have 5: "y \<in> set (timers s5) \<Longrightarrow> y \<in> set (timers s4) \<or> fst y = K2Interval (nextRun s4)
      \<or> fst y = K2Timeout (nextRun s4)" for y
    by (auto simp: s5_def k2Effect_def split: if_splits)
  from assms have "x \<in> set (timers s5)"
    by (simp add: e)
  from 5 [OF this] show ?thesis
  proof
    assume "x \<in> set (timers s4)"
    from 4 [OF this] show ?thesis
    proof
      assume "x \<in> set (timers s3)"
      with 1 2 have "x \<in> set (timers s)"
        unfolding 3 by (rule_tac subsetD [OF 1], rule_tac subsetD [OF 2])
      then show ?thesis ..
    next
      assume "fst x = MetricsInterval (nextRun s)"
      then show ?thesis
        by (intro disjI2 exI [of _ "nextRun s"]) simp
    qed
  next
    assume "fst x = K2Interval (nextRun s4) \<or> fst x = K2Timeout (nextRun s4)"
    with n4 show ?thesis
      by (intro disjI2 exI [of _ "nextRun s4"]) auto
  qed
qed

lemma root_step_runs:
  "nextRun (sidebar_of d) \<le> nextRun (sidebar_of (root_step t d))"
  "k2Mounted (sidebar_of (root_step t d)) = Some g \<Longrightarrow>
     k2Mounted (sidebar_of d) = Some g \<or> nextRun (sidebar_of d) \<le> g"
  "x \<in> set (timers (sidebar_of (root_step t d))) \<Longrightarrow>
     x \<in> set (timers (sidebar_of d)) \<or>
     (\<exists>k. nextRun (sidebar_of d) \<le> k \<and>
        (fst x = MetricsInterval k \<or> fst x = K2Interval k \<or> fst x = K2Timeout k))"
proof -
  let ?s = "sidebar_of d"
  have f: "nextRun ?s \<le> nextRun (sidebar_of (flushPassiveEffects d)) \<and>
      (k2Mounted (sidebar_of (flushPassiveEffects d)) = Some g \<longrightarrow>
         k2Mounted ?s = Some g \<or> nextRun ?s \<le> g) \<and>
      (x \<in> set (timers (sidebar_of (flushPassiveEffects d))) \<longrightarrow>
         x \<in> set (timers ?s) \<or>
         (\<exists>k. nextRun ?s \<le> k \<and>
            (fst x = MetricsInterval k \<or> fst x = K2Interval k \<or> fst x = K2Timeout k)))"
  proof (cases "pendingPassive d")
    case None
    then show ?thesis by (simp add: flushPassiveEffects_def)
  next
    case (Some r)
    then have s': "sidebar_of (flushPassiveEffects d) = effects (fst r) (snd r) ?s"
      by (simp add: flushPassiveEffects_def)
    show ?thesis
      unfolding s'
      using effects_new_timers [of x "fst r" "snd r" ?s]
      by (auto simp: effects_nextRun effects_k2Mounted split: if_splits)
  qed
  have h: "set (timers (sb_handle e ?s)) \<subseteq> set (timers ?s)" for e
    using handle_timers [of e ?s] by auto
  show "nextRun ?s \<le> nextRun (sidebar_of (root_step t d))"
    using f by (cases t) (simp_all add: root_step_def handle_frame renderRoot_eq render_def)
  show "k2Mounted (sidebar_of (root_step t d)) = Some g \<Longrightarrow>
     k2Mounted ?s = Some g \<or> nextRun ?s \<le> g"
    using f by (cases t) (simp_all add: root_step_def handle_frame renderRoot_eq render_def)
  show "x \<in> set (timers (sidebar_of (root_step t d))) \<Longrightarrow>
     x \<in> set (timers ?s) \<or>
     (\<exists>k. nextRun ?s \<le> k \<and>
        (fst x = MetricsInterval k \<or> fst x = K2Interval k \<or> fst x = K2Timeout k))"
    using f h by (cases t) (auto simp: root_step_def renderRoot_eq render_def)
qed

lemma root_run_runs:
  assumes g: "g < nextRun (sidebar_of d)"
  shows "k2Mounted (sidebar_of d) \<noteq> Some g \<Longrightarrow> k2Mounted (sidebar_of (root_run d tasks)) \<noteq> Some g"
    and "K2Timeout g \<notin> fst ` set (timers (sidebar_of d)) \<Longrightarrow>
         K2Timeout g \<notin> fst ` set (timers (sidebar_of (root_run d tasks)))"
proof -
  have "g < nextRun (sidebar_of (root_run d tasks)) \<and>
      (k2Mounted (sidebar_of d) \<noteq> Some g \<longrightarrow> k2Mounted (sidebar_of (root_run d tasks)) \<noteq> Some g) \<and>
      (K2Timeout g \<notin> fst ` set (timers (sidebar_of d)) \<longrightarrow>
         K2Timeout g \<notin> fst ` set (timers (sidebar_of (root_run d tasks))))"
    using g
  proof (induction tasks arbitrary: d)
    case Nil
    then show ?case by (simp add: root_run_Nil)
  next
    case (Cons t tasks)
    let ?d = "root_step t d"
    from Cons.prems root_step_runs(1) [of d t] have g': "g < nextRun (sidebar_of ?d)"
      by simp
    have a: "k2Mounted (sidebar_of ?d) \<noteq> Some g" if "k2Mounted (sidebar_of d) \<noteq> Some g"
      using root_step_runs(2) [of t d g] that Cons.prems by auto
    have b: "K2Timeout g \<notin> fst ` set (timers (sidebar_of ?d))"
      if "K2Timeout g \<notin> fst ` set (timers (sidebar_of d))"
    proof
      assume "K2Timeout g \<in> fst ` set (timers (sidebar_of ?d))"
      then obtain p where "(K2Timeout g, p) \<in> set (timers (sidebar_of ?d))"
        by force
      from root_step_runs(3) [OF this] that Cons.prems show False
        by force
    qed
    from Cons.IH [OF g'] a b show ?case
      by (simp add: root_run_Cons)
  qed
  then show "k2Mounted (sidebar_of d) \<noteq> Some g \<Longrightarrow>
      k2Mounted (sidebar_of (root_run d tasks)) \<noteq> Some g"
    and "K2Timeout g \<notin> fst ` set (timers (sidebar_of d)) \<Longrightarrow>
         K2Timeout g \<notin> fst ` set (timers (sidebar_of (root_run d tasks)))"
    by simp_all
qed

lemma flushed_mounted:
  assumes inv: "root_inv d" and p: "pendingPassive d = None"
  shows "k2Mounted (sidebar_of d) \<noteq> None \<longleftrightarrow> rendered d = escalated_pending"
proof
  note i = root_invD [OF inv]
  assume "k2Mounted (sidebar_of d) \<noteq> None"
  with i(2) obtain c where "k2Deps (sidebar_of d) = Some (c, escalated_pending)"
    by (auto simp: deps_ok_def)
  with i(7) p show "rendered d = escalated_pending"
    by (simp add: flushed_ok_def rendered_def)
next
  note i = root_invD [OF inv]
  assume r: "rendered d = escalated_pending"
  with i(3) obtain c es where k: "k2Deps (sidebar_of d) = Some (c, es)"
    by (cases "k2Deps (sidebar_of d)") (auto simp: fresh_ok_def rendered_def)
  with i(7) p r have "es = escalated_pending" "c \<noteq> []"
    by (simp_all add: flushed_ok_def rendered_def)
  with k i(2) show "k2Mounted (sidebar_of d) \<noteq> None"
    by (simp add: deps_ok_def)
qed

text \<open>
  A terminal state that has been rendered stays once the effect phase of its render has
  run: the component stays on the conversation, no K2 run is mounted, and the ref no
  longer reads \<open>idle\<close>.
\<close>

lemma handle_verdict_kept:
  assumes "k2Mounted s = None"
  shows "k2Explanation (sb_handle e s) = k2Explanation s"
    and "k2Confidence (sb_handle e s) = k2Confidence s"
proof -
  have "k2Explanation (sb_handle e s) = k2Explanation s \<and>
      k2Confidence (sb_handle e s) = k2Confidence s"
  proof (cases e)
    case (TabUrl url)
    then show ?thesis by (simp add: sb_handle_def)
  next
    case (TimerFired tm)
    with assms show ?thesis
      by (cases tm) (simp_all add: sb_handle_def fire_def pollMetrics_def pollK2_def k2Timeout_def)
  next
    case (MetricsArrived g now res)
    then show ?thesis
      by (cases res) (simp_all add: sb_handle_def pollMetrics_resume_def setMetrics_def)
  next
    case (K2StatusArrived g res)
    with assms show ?thesis
      by (simp add: sb_handle_def pollK2_resume_def)
  qed
  then show "k2Explanation (sb_handle e s) = k2Explanation s"
    and "k2Confidence (sb_handle e s) = k2Confidence s"
    by simp_all
qed

lemma effects_verdict_kept:
  assumes "resetDeps s = Some cid"
  shows "k2Explanation (effects cid es s) = k2Explanation s"
    and "k2Confidence (effects cid es s) = k2Confidence s"
  using assms
  by (simp_all add: effects_def Let_def metricsCleanup_def k2Cleanup_def metricsEffect_def
      k2Effect_def split: option.splits)

lemma closed_with_step:
  assumes c: "closed_with x expl d" and inv: "root_inv d"
    and x: "x \<noteq> idle" "x \<noteq> escalated_pending" and t: "\<not> is_tab_task t"
  shows "closed_with x expl (root_step t d)"
proof -
  let ?s = "sidebar_of d"
  from c have es: "escalationState ?s = x" and ref: "escalationStateRef ?s = x"
    and ex: "k2Explanation ?s = expl" and k: "k2Mounted ?s = None"
    and rd: "resetDeps ?s = Some (conversationId ?s)"
    and pp: "\<And>r. pendingPassive d = Some r \<Longrightarrow> fst r = conversationId ?s"
    by (simp_all add: closed_with_def rendered_def)
  note i = root_invD [OF inv]
  have f: "closed_with x expl (flushPassiveEffects d)"
  proof (cases "pendingPassive d")
    case None
    with c show ?thesis by (simp add: flushPassiveEffects_def)
  next
    case (Some r)
    with i(6) ref have sr: "snd r = x"
      by (simp add: passive_ok_def)
    from pp [OF Some] have fr: "fst r = conversationId ?s" .
    show ?thesis
      using es ref ex k rd x
      by (simp add: closed_with_def rendered_def flushPassiveEffects_def Some sr fr
          effects_fields effects_no_reset effects_verdict_kept effects_k2Mounted)
  qed
  show ?thesis
  proof (cases t)
    case (Callback e)
    from t have nt: "\<not> is_tab e"
      by (simp add: Callback is_tab_task_simps)
    have "escalationState (sb_handle e ?s) = x"
      using handle_escalationState [of e ?s] es ref k x
      by (elim disjE exE conjE) simp_all
    with ref ex k rd pp show ?thesis
      by (simp add: closed_with_def rendered_def Callback root_step_def handle_frame
          handle_verdict_kept handle_conv_same [OF nt])
  next
    case Render
    from f show ?thesis
      by (simp add: closed_with_def rendered_def Render root_step_def renderRoot_eq render_def)
  next
    case Effects
    with f show ?thesis
      by (simp add: root_step_def)
  qed
qed

lemma closed_with_run:
  assumes inv: "root_inv d" and x: "x \<noteq> idle" "x \<noteq> escalated_pending"
  shows "closed_with x expl d \<Longrightarrow> \<forall>t \<in> set tasks. \<not> is_tab_task t \<Longrightarrow>
     closed_with x expl (root_run d tasks)"
  using inv
proof (induction tasks arbitrary: d)
  case Nil
  then show ?case by (simp add: root_run_Nil)
next
  case (Cons t tasks)
  from Cons.prems have t: "\<not> is_tab_task t" and ts: "\<forall>t \<in> set tasks. \<not> is_tab_task t"
    by simp_all
  from Cons.IH [OF closed_with_step [OF Cons.prems(1) Cons.prems(3) x t] ts
      root_inv_step [OF Cons.prems(3)]]
  show ?case
    by (simp add: root_run_Cons)
qed

text \<open>The effect phase that starts a K2 run, and the one that ends it.\<close>

lemma effects_k2_start:
  assumes "k2Deps s \<noteq> Some (cid, escalated_pending)" "cid \<noteq> []"
  shows "\<exists>k. nextRun s \<le> k \<and>
     k2Mounted (effects cid escalated_pending s) = Some k \<and>
     last (requests (effects cid escalated_pending s)) = (k, GetK2Status cid) \<and>
     (K2Interval k, K2_POLL_INTERVAL) \<in> set (timers (effects cid escalated_pending s)) \<and>
     (K2Timeout k, K2_TIMEOUT) \<in> set (timers (effects cid escalated_pending s))"
proof -
  define s1 where "s1 = (if metricsDeps s \<noteq> Some cid then metricsCleanup s else s)"
  define s3 where "s3 = (if resetDeps s \<noteq> Some cid then resetEffect cid (k2Cleanup s1) else k2Cleanup s1)"
  define s4 where "s4 = (if metricsDeps s \<noteq> Some cid then metricsEffect cid s3 else s3)"
  have e: "effects cid escalated_pending s =
      (k2Effect cid escalated_pending s4)
        \<lparr>resetDeps := Some cid, metricsDeps := Some cid, k2Deps := Some (cid, escalated_pending)\<rparr>"
    using assms(1) by (simp add: effects_def Let_def s1_def s3_def s4_def)
  have n: "nextRun s \<le> nextRun s4"
    by (simp add: s4_def s3_def s1_def phase_fields)
  show ?thesis
    unfolding e using n assms(2)
    by (intro exI [of _ "nextRun s4"]) (simp add: k2Effect_def)
qed

lemma effects_k2_end:
  assumes ok: "timers_ok s" and m: "k2Mounted s = Some g" and ch: "k2Deps s \<noteq> Some (cid, es)"
  shows "k2Mounted (effects cid es s) \<noteq> Some g"
    and "K2Interval g \<notin> fst ` set (timers (effects cid es s))"
    and "K2Timeout g \<notin> fst ` set (timers (effects cid es s))"
    and "es \<noteq> escalated_pending \<Longrightarrow> k2Mounted (effects cid es s) = None"
proof -
  from ok m have g: "g < nextRun s"
    by (simp add: timers_ok_def)
  show u: "k2Mounted (effects cid es s) \<noteq> Some g"
    using ch g by (simp add: effects_k2Mounted)
  note ok' = timers_ok_effects [OF ok, of cid es]
  show "K2Interval g \<notin> fst ` set (timers (effects cid es s))"
    using timer_owner_ok(1) [OF ok' _ refl, of g] u by blast
  show "K2Timeout g \<notin> fst ` set (timers (effects cid es s))"
    using timer_owner_ok(2) [OF ok' _ refl, of g] u by blast
  show "es \<noteq> escalated_pending \<Longrightarrow> k2Mounted (effects cid es s) = None"
    using ch by (simp add: effects_k2Mounted)
qed

lemma callback_k2_tick:
  assumes ok: "timers_ok (sidebar_of d)" and m: "k2Mounted (sidebar_of d) = Some g"
  shows "(K2Interval g, K2_POLL_INTERVAL) \<in> set (timers (sidebar_of d))"
    and "root_step (Callback (TimerFired (K2Interval g))) d =
      d\<lparr>sidebar_of := (sidebar_of d)
          \<lparr>requests := requests (sidebar_of d) @ [(g, GetK2Status (k2Closure (sidebar_of d)))]\<rparr>\<rparr>"
proof -
  show i: "(K2Interval g, K2_POLL_INTERVAL) \<in> set (timers (sidebar_of d))"
    using ok m by (simp add: timers_ok_def)
  then have "K2Interval g \<in> fst ` set (timers (sidebar_of d))"
    by force
  then show "root_step (Callback (TimerFired (K2Interval g))) d =
      d\<lparr>sidebar_of := (sidebar_of d)
          \<lparr>requests := requests (sidebar_of d) @ [(g, GetK2Status (k2Closure (sidebar_of d)))]\<rparr>\<rparr>"
    using m by (simp add: root_step_def sb_handle_def fire_def pollK2_def)
qed

subsection \<open>Example schedules\<close>

lemmas root_eval =
  root_step_def renderRoot_def flushPassiveEffects_def effects_def Let_def render_def
  resetEffect_def metricsEffect_def k2Effect_def metricsCleanup_def k2Cleanup_def
  sb_handle_def METRICS_POLL_INTERVAL_def K2_POLL_INTERVAL_def K2_TIMEOUT_def

lemma run_mount_abc: "root_run root_init mount_abc = root_idle"
  by (simp add: root_run_def mount_abc_def root_init_def sb_init_def root_idle_def panel_idle_def
      extract_abc root_eval)

lemma step_escalate_abc:
  "root_run root_idle [Callback (MetricsArrived 0 1500 (Ok metrics_one)), Render, Effects]
     = root_pending"
  by (simp add: root_run_def root_idle_def panel_idle_def root_pending_def panel_pending_def
      pollMetrics_resume_def setMetrics_def escalated_def metrics_one_def metrics_sample_def
      root_eval)

lemma run_escalate_abc: "root_run root_init escalate_abc = root_pending"
  by (simp only: escalate_abc_def root_run_append run_mount_abc step_escalate_abc)

subsection \<open>Single steps\<close>

text \<open>
  A poll that carries no result calls no setter: it leaves the root as it is in every state,
  whenever it arrives.
\<close>

lemma callback_failed_poll:
  "failed_fetch res \<Longrightarrow> root_step (Callback (MetricsArrived g now res)) d = d"
  by (cases res) (simp_all add: root_step_def sb_handle_def pollMetrics_resume_def failed_fetch_def)

lemma callback_no_verdict:
  assumes "status data = Some ''completed''"
    and "result_type data \<noteq> Some ''confirmed''" "result_type data \<noteq> Some ''overridden''"
  shows "root_step (Callback (K2StatusArrived g (Ok data))) d = d"
  using assms by (simp add: root_step_def sb_handle_def pollK2_resume_def)

lemma step_frame:
  "k2Mounted (sidebar_of (root_step (Callback e) d)) = k2Mounted (sidebar_of d)"
  "resetDeps (sidebar_of (root_step (Callback e) d)) = resetDeps (sidebar_of d)"
  "k2Deps (sidebar_of (root_step (Callback e) d)) = k2Deps (sidebar_of d)"
  "pendingPassive (root_step (Callback e) d) = pendingPassive d"
  "rendered (root_step (Callback e) d) = rendered d"
  by (simp_all add: root_step_def handle_frame rendered_def)

lemma render_flushed:
  assumes "pendingPassive d = None"
  shows "sidebar_of (root_step Render d) = render (sidebar_of d)"
    and "pendingPassive (root_step Render d) =
       Some (conversationId (sidebar_of d), escalationState (sidebar_of d))"
    and "rendered (root_step Render d) = escalationState (sidebar_of d)"
  using assms
  by (simp_all add: root_step_def renderRoot_eq flushPassiveEffects_def render_def rendered_def)

lemma render_frame:
  "k2Mounted (render s) = k2Mounted s" "resetDeps (render s) = resetDeps s"
  "k2Deps (render s) = k2Deps s" "timers (render s) = timers s"
  "requests (render s) = requests s" "nextRun (render s) = nextRun s"
  "escalationState (render s) = escalationState s" "conversationId (render s) = conversationId s"
  by (simp_all add: render_def)

lemma rendered_render:
  "rendered (root_step Render d) = escalationState (sidebar_of (flushPassiveEffects d))"
  by (simp add: rendered_step)

lemma flush_some:
  assumes "pendingPassive d = Some (cid, es)"
  shows "sidebar_of (flushPassiveEffects d) = effects cid es (sidebar_of d)"
    and "sidebar_of (root_step Effects d) = effects cid es (sidebar_of d)"
    and "pendingPassive (root_step Effects d) = None"
  using assms by (simp_all add: flushPassiveEffects_def root_step_def)

lemma response_frame:
  "timers (sidebar_of (root_step (Callback (K2StatusArrived g res)) d)) = timers (sidebar_of d)"
  "requests (sidebar_of (root_step (Callback (K2StatusArrived g res)) d)) = requests (sidebar_of d)"
  "timers (sidebar_of (root_step (Callback (MetricsArrived g now res')) d)) = timers (sidebar_of d)"
  "requests (sidebar_of (root_step (Callback (MetricsArrived g now res')) d)) = requests (sidebar_of d)"
  "conversationId (sidebar_of (root_step (Callback (K2StatusArrived g res)) d))
     = conversationId (sidebar_of d)"
  "conversationId (sidebar_of (root_step (Callback (MetricsArrived g now res')) d))
     = conversationId (sidebar_of d)"
proof -
  show "timers (sidebar_of (root_step (Callback (K2StatusArrived g res)) d)) = timers (sidebar_of d)"
    "requests (sidebar_of (root_step (Callback (K2StatusArrived g res)) d)) = requests (sidebar_of d)"
    by (cases res; simp add: root_step_def sb_handle_def pollK2_resume_def)+
  show "timers (sidebar_of (root_step (Callback (MetricsArrived g now res')) d)) = timers (sidebar_of d)"
    "requests (sidebar_of (root_step (Callback (MetricsArrived g now res')) d)) = requests (sidebar_of d)"
    by (cases res'; simp add: root_step_def sb_handle_def pollMetrics_resume_def setMetrics_def)+
  show "conversationId (sidebar_of (root_step (Callback (K2StatusArrived g res)) d))
     = conversationId (sidebar_of d)"
    "conversationId (sidebar_of (root_step (Callback (MetricsArrived g now res')) d))
     = conversationId (sidebar_of d)"
    by (simp_all add: root_step_def handle_conversationId)
qed

subsection \<open>Edge-triggered escalation\<close>

lemma edge_step:
  assumes inv: "root_inv d" and p: "rendered (root_step t d) = escalated_pending"
  shows "rendered d = idle \<or> rendered d = escalated_pending"
proof (cases t)
  case (Callback e)
  with p show ?thesis by (simp add: rendered_step)
next
  case Effects
  with p show ?thesis by (simp add: rendered_step)
next
  case Render
  let ?f = "flushPassiveEffects d"
  from p Render have "escalationState (sidebar_of ?f) = escalated_pending"
    by (simp add: rendered_step)
  moreover from root_inv_effects [OF inv] have "edge_ok (sidebar_of ?f)"
    by (rule root_invD)
  ultimately have "rendered ?f = idle \<or> rendered ?f = escalated_pending"
    by (simp add: edge_ok_def rendered_def)
  moreover have "rendered ?f = rendered d"
    using rendered_step [of Effects d] by (simp add: root_step_def)
  ultimately show ?thesis
    by simp
qed

lemma poll_outside_idle:
  assumes "rendered d \<noteq> idle"
  shows "escalationState (sidebar_of (root_step (Callback (MetricsArrived g now res)) d))
      = escalationState (sidebar_of d)"
    and "escalationReason (sidebar_of (root_step (Callback (MetricsArrived g now res)) d))
      = escalationReason (sidebar_of d)"
    and "escalationStartTimeRef (sidebar_of (root_step (Callback (MetricsArrived g now res)) d))
      = escalationStartTimeRef (sidebar_of d)"
  using assms
  by (cases res; simp add: root_step_def sb_handle_def pollMetrics_resume_def setMetrics_def
      rendered_def)+

lemma poll_at_idle:
  assumes "rendered d = idle" "metricsMounted (sidebar_of d) = Some g" "reports_escalation res"
  shows "escalationState (sidebar_of (root_step (Callback (MetricsArrived g now res)) d))
      = escalated_pending"
  using assms
  by (cases res) (simp_all add: root_step_def sb_handle_def pollMetrics_resume_def rendered_def
      reports_escalation_def)

lemma poll_keeps_pending:
  assumes "escalationState (sidebar_of d) = escalated_pending"
  shows "escalationState (sidebar_of (root_step (Callback (MetricsArrived g now res)) d))
      = escalated_pending"
    and "escalationReason (sidebar_of d) = ''Cumulative Drift > Threshold'' \<Longrightarrow>
      escalationReason (sidebar_of (root_step (Callback (MetricsArrived g now res)) d))
        = ''Cumulative Drift > Threshold''"
  using assms
  by (cases res; simp add: root_step_def sb_handle_def pollMetrics_resume_def setMetrics_def)+

text \<open>
  C3. Under every schedule of callbacks, renders and effect phases: the rendered escalation
  state (the one \<^verbatim>\<open>escalationStateRef\<close> holds) enters \<open>escalated_pending\<close> only from \<open>idle\<close>;
  a metrics poll that arrives while the rendered state is not \<open>idle\<close> leaves the escalation state,
  its reason and its start time as they are, whatever count it reports; a poll of the mounted
  run that reports a count above zero while the rendered state is \<open>idle\<close> sets
  \<open>escalated_pending\<close>, and a poll that arrives when \<open>escalated_pending\<close> has been set, rendered
  or not, leaves the state and its reason as they are. For a component that is idle on its
  conversation and any schedule
  without a tab event, the rendered states make one step from \<open>idle\<close> to \<open>escalated_pending\<close>
  if the rendered state ends outside \<open>idle\<close> and none otherwise; they make exactly one when a
  poll of the mounted run that reports a count above zero is followed by a render, however
  many further polls run before or after that render.
\<close>

theorem escalation_edge_triggered:
  assumes "d = root_run root_init past"
  shows "(rendered (root_step t d) = escalated_pending \<longrightarrow>
       rendered d = idle \<or> rendered d = escalated_pending) \<and>
    (rendered d \<noteq> idle \<longrightarrow>
       escalationState (sidebar_of (root_step (Callback (MetricsArrived g now res)) d))
         = escalationState (sidebar_of d) \<and>
       escalationReason (sidebar_of (root_step (Callback (MetricsArrived g now res)) d))
         = escalationReason (sidebar_of d) \<and>
       escalationStartTimeRef (sidebar_of (root_step (Callback (MetricsArrived g now res)) d))
         = escalationStartTimeRef (sidebar_of d)) \<and>
    (rendered d = idle \<and> metricsMounted (sidebar_of d) = Some g \<and> reports_escalation res \<longrightarrow>
       escalationState (sidebar_of (root_step (Callback (MetricsArrived g now res)) d))
         = escalated_pending) \<and>
    (escalationState (sidebar_of d) = escalated_pending \<and>
     escalationReason (sidebar_of d) = ''Cumulative Drift > Threshold'' \<longrightarrow>
       escalationState (sidebar_of (root_step (Callback (MetricsArrived g now res)) d))
         = escalated_pending \<and>
       escalationReason (sidebar_of (root_step (Callback (MetricsArrived g now res)) d))
         = ''Cumulative Drift > Threshold'') \<and>
    (at_idle d \<and> (\<forall>t \<in> set tasks. \<not> is_tab_task t) \<longrightarrow>
       triggers (map rendered (root_states d tasks)) =
         (if rendered (root_run d tasks) = idle then 0 else 1)) \<and>
    (at_idle d \<and> (\<forall>t \<in> set tasks. \<not> is_tab_task t) \<and>
     metricsMounted (sidebar_of d) = Some g \<and> reports_escalation res \<and>
     tasks = pre @ Callback (MetricsArrived g now res) # mid @ Render # post \<longrightarrow>
       triggers (map rendered (root_states d tasks)) = 1)"
proof -
  have inv: "root_inv d"
    unfolding assms by (rule root_inv_reachable)
  have a: "rendered (root_step t d) = escalated_pending \<longrightarrow>
       rendered d = idle \<or> rendered d = escalated_pending"
    using edge_step [OF inv] by blast
  have b: "rendered d \<noteq> idle \<longrightarrow>
       escalationState (sidebar_of (root_step (Callback (MetricsArrived g now res)) d))
         = escalationState (sidebar_of d) \<and>
       escalationReason (sidebar_of (root_step (Callback (MetricsArrived g now res)) d))
         = escalationReason (sidebar_of d) \<and>
       escalationStartTimeRef (sidebar_of (root_step (Callback (MetricsArrived g now res)) d))
         = escalationStartTimeRef (sidebar_of d)"
    using poll_outside_idle [of d g now res] by blast
  have c: "rendered d = idle \<and> metricsMounted (sidebar_of d) = Some g \<and> reports_escalation res \<longrightarrow>
       escalationState (sidebar_of (root_step (Callback (MetricsArrived g now res)) d))
         = escalated_pending"
    using poll_at_idle [of d g res now] by blast
  have count: "triggers (map rendered (root_states d tasks)) =
         (if rendered (root_run d tasks) = idle then 0 else 1)"
    if i: "at_idle d" and q: "\<forall>t \<in> set tasks. \<not> is_tab_task t"
  proof -
    from i have "rendered d = idle"
      by (simp add: at_idle_def)
    with watching_triggers [OF at_idle_watching [OF i inv] q] show ?thesis
      by simp
  qed
  have one: "triggers (map rendered (root_states d tasks)) = 1"
    if i: "at_idle d" and q: "\<forall>t \<in> set tasks. \<not> is_tab_task t"
      and m: "metricsMounted (sidebar_of d) = Some g" and r: "reports_escalation res"
      and ts: "tasks = pre @ Callback (MetricsArrived g now res) # mid @ Render # post"
    using count [OF i q] watching_poll_then_render [OF at_idle_watching [OF i inv] ts q m r]
    by simp
  have k: "escalationState (sidebar_of d) = escalated_pending \<and>
     escalationReason (sidebar_of d) = ''Cumulative Drift > Threshold'' \<longrightarrow>
       escalationState (sidebar_of (root_step (Callback (MetricsArrived g now res)) d))
         = escalated_pending \<and>
       escalationReason (sidebar_of (root_step (Callback (MetricsArrived g now res)) d))
         = ''Cumulative Drift > Threshold''"
    using poll_keeps_pending [of d g now res] by blast
  from a b c k count one show ?thesis
    by blast
qed

lemma root_idle_facts:
  "at_idle root_idle" "metricsMounted (sidebar_of root_idle) = Some 0"
  "rendered root_idle = idle"
  by (simp_all add: at_idle_def settled_def rendered_def root_idle_def panel_idle_def)

lemma stream_abc_quiet: "\<forall>t \<in> set stream_abc. \<not> is_tab_task t"
  by (simp add: stream_abc_def is_tab_task_def is_tab_def)

lemma root_pending_facts:
  "rendered root_pending = escalated_pending" "pendingPassive root_pending = None"
  "escalationState (sidebar_of root_pending) = escalated_pending"
  "k2Mounted (sidebar_of root_pending) = Some 1"
  "timers (sidebar_of root_pending) =
     [(MetricsInterval 0, 1500), (K2Interval 1, 2000), (K2Timeout 1, 90000)]"
  "requests (sidebar_of root_pending) = [(0, GetMetrics ''abc''), (1, GetK2Status ''abc'')]"
  "k2Closure (sidebar_of root_pending) = ''abc''" "nextRun (sidebar_of root_pending) = 2"
  "resetDeps (sidebar_of root_pending) = Some ''abc''"
  "conversationId (sidebar_of root_pending) = ''abc''"
  "k2Deps (sidebar_of root_pending) = Some (''abc'', escalated_pending)"
  by (simp_all add: rendered_def root_pending_def panel_pending_def k2Closure_def)

theorem escalation_edge_triggered_witness:
  "at_idle (root_run root_init mount_abc) \<and>
   escalationState (sidebar_of (root_step (Callback (MetricsArrived 0 4500 (Ok metrics_one)))
      (root_run root_init mount_abc))) = escalated_pending \<and>
   rendered (root_run root_init escalate_abc) = escalated_pending \<and>
   escalationState (sidebar_of (root_step (Callback (MetricsArrived 0 7500 (Ok metrics_two)))
      (root_run root_init escalate_abc))) = escalated_pending \<and>
   escalationStartTimeRef (sidebar_of (root_step (Callback (MetricsArrived 0 7500 (Ok metrics_two)))
      (root_run root_init escalate_abc))) = 1500 \<and>
   rendered (root_run root_init
      (mount_abc @ [Callback (MetricsArrived 0 4500 (Ok metrics_one))])) = idle \<and>
   escalationState (sidebar_of (root_run root_init
      (mount_abc @ [Callback (MetricsArrived 0 4500 (Ok metrics_one)),
                    Callback (MetricsArrived 0 6000 (Ok metrics_one))]))) = escalated_pending \<and>
   triggers (map rendered (root_states (root_run root_init mount_abc) stream_abc)) = 1"
proof -
  have split: "stream_abc =
      [Callback (MetricsArrived 0 1500 (Ok metrics_calm)),
       Callback (MetricsArrived 0 3000 (Ok metrics_calm))]
      @ Callback (MetricsArrived 0 4500 (Ok metrics_one))
      # [Callback (MetricsArrived 0 6000 (Ok metrics_one))]
      @ Render
      # [Effects, Callback (MetricsArrived 0 7500 (Ok metrics_two)), Render, Effects]"
    by (simp add: stream_abc_def)
  from escalation_edge_triggered [where d = "root_run root_init mount_abc" and past = mount_abc
      and g = 0 and now = 4500 and res = "Ok metrics_one" and tasks = stream_abc
      and pre = "[Callback (MetricsArrived 0 1500 (Ok metrics_calm)),
                  Callback (MetricsArrived 0 3000 (Ok metrics_calm))]"
      and mid = "[Callback (MetricsArrived 0 6000 (Ok metrics_one))]"
      and post = "[Effects, Callback (MetricsArrived 0 7500 (Ok metrics_two)), Render, Effects]",
      OF refl]
  have a: "escalationState (sidebar_of (root_step (Callback (MetricsArrived 0 4500 (Ok metrics_one)))
      (root_run root_init mount_abc))) = escalated_pending"
    and b: "triggers (map rendered (root_states (root_run root_init mount_abc) stream_abc)) = 1"
    using split stream_abc_quiet
    by (simp_all add: run_mount_abc root_idle_facts sample_facts)
  from escalation_edge_triggered [where d = "root_run root_init escalate_abc"
      and past = escalate_abc and g = 0 and now = 7500 and res = "Ok metrics_two", OF refl]
  have c: "escalationState (sidebar_of (root_step (Callback (MetricsArrived 0 7500 (Ok metrics_two)))
      (root_run root_init escalate_abc))) = escalated_pending"
    and d: "escalationStartTimeRef (sidebar_of (root_step (Callback (MetricsArrived 0 7500 (Ok metrics_two)))
      (root_run root_init escalate_abc))) = 1500"
    by (simp_all add: run_escalate_abc root_pending_facts) (simp add: root_pending_def panel_pending_def)
  let ?first = "Callback (MetricsArrived 0 4500 (Ok metrics_one))"
  let ?d1 = "root_run root_init (mount_abc @ [?first])"
  have r1: "?d1 = root_step ?first root_idle"
    by (simp only: root_run_append run_mount_abc root_run_Cons root_run_Nil)
  have e: "rendered ?d1 = idle"
    by (simp only: r1 step_frame root_idle_facts)
  have f1: "escalationState (sidebar_of ?d1) = escalated_pending"
    "escalationReason (sidebar_of ?d1) = ''Cumulative Drift > Threshold''"
    unfolding r1
    by (simp_all add: root_step_def sb_handle_def pollMetrics_resume_def setMetrics_def
        root_idle_def panel_idle_def metrics_one_def metrics_sample_def escalated_def)
  from escalation_edge_triggered [where d = ?d1 and past = "mount_abc @ [?first]"
      and g = 0 and now = 6000 and res = "Ok metrics_one", OF refl] f1
  have "escalationState (sidebar_of (root_step (Callback (MetricsArrived 0 6000 (Ok metrics_one))) ?d1))
      = escalated_pending"
    by blast
  then have f: "escalationState (sidebar_of (root_run root_init
      (mount_abc @ [?first, Callback (MetricsArrived 0 6000 (Ok metrics_one))]))) = escalated_pending"
    by (simp only: root_run_append root_run_Cons root_run_Nil)
  from a b c d e f show ?thesis
    by (simp add: run_mount_abc run_escalate_abc root_idle_facts root_pending_facts)
qed

subsection \<open>The verification time-out\<close>

lemma timeout_period:
  assumes ok: "timers_ok s" and tm: "(K2Timeout g, p) \<in> set (timers s)"
  shows "p = K2_TIMEOUT"
proof -
  from ok tm have "(K2Timeout g, p) \<in> expected_timers s"
    by (auto simp: timers_ok_def)
  then show ?thesis
    by (cases "metricsMounted s"; cases "k2Mounted s") (auto simp: expected_timers_def)
qed

lemma k2_verdict_applied:
  assumes "k2Mounted (sidebar_of d) = Some g"
  shows "escalationState (sidebar_of (root_step (Callback (K2StatusArrived g (Ok k2_confirmed_sample))) d))
      = k2_confirmed"
    and "escalationState (sidebar_of (root_step (Callback (K2StatusArrived g (Ok k2_failed_sample))) d))
      = k2_failed"
    and "k2Explanation (sidebar_of (root_step (Callback (K2StatusArrived g (Ok k2_failed_sample))) d))
      = ''K2 reasoning failed. Heuristic result retained.''"
  using assms
  by (simp_all add: root_step_def sb_handle_def pollK2_resume_def k2_confirmed_sample_def
      k2_failed_sample_def k2_sample_def)

text \<open>
  C4 as stated fails. The sidebar is in \<open>escalated_pending\<close> on conversation \<open>abc\<close>
  with K2 run 1 mounted. The time-out fires and sets \<open>k2_failed\<close>; a status response of run 1
  arrives in the next callback, before React has rendered: it is applied, and the render
  shows \<open>k2_confirmed\<close>. The same happens when React has rendered \<open>k2_failed\<close> in between
  and only the effect phase of that render has not run yet. In the same way a response that
  reports a failure and the time-out, in two consecutive callbacks, both set the state.
\<close>

theorem k2_timeout_late_response_counterexample:
  "rendered (root_run root_init escalate_abc) = escalated_pending \<and>
   escalationState (sidebar_of (root_run root_init
      (escalate_abc @ [Callback (TimerFired (K2Timeout 1))]))) = k2_failed \<and>
   rendered (root_run root_init
      (escalate_abc @ [Callback (TimerFired (K2Timeout 1)),
                       Callback (K2StatusArrived 1 (Ok k2_confirmed_sample)), Render]))
     = k2_confirmed \<and>
   rendered (root_run root_init
      (escalate_abc @ [Callback (TimerFired (K2Timeout 1)), Render])) = k2_failed \<and>
   rendered (root_run root_init
      (escalate_abc @ [Callback (TimerFired (K2Timeout 1)), Render,
                       Callback (K2StatusArrived 1 (Ok k2_confirmed_sample)), Render]))
     = k2_confirmed \<and>
   k2Explanation (sidebar_of (root_run root_init
      (escalate_abc @ [Callback (K2StatusArrived 1 (Ok k2_failed_sample))])))
     = ''K2 reasoning failed. Heuristic result retained.'' \<and>
   k2Explanation (sidebar_of (root_run root_init
      (escalate_abc @ [Callback (K2StatusArrived 1 (Ok k2_failed_sample)),
                       Callback (TimerFired (K2Timeout 1))])))
     = ''K2 reasoning timed out. Heuristic result retained.''"
proof -
  let ?timeout = "Callback (TimerFired (K2Timeout 1))"
  let ?confirmed = "Callback (K2StatusArrived 1 (Ok k2_confirmed_sample))"
  let ?failed = "Callback (K2StatusArrived 1 (Ok k2_failed_sample))"
  let ?d1 = "root_step ?timeout root_pending"
  let ?d2 = "root_step Render ?d1"
  let ?d3 = "root_step ?confirmed ?d2"
  have ok: "timers_ok (sidebar_of root_pending)"
    using root_inv_reachable [of escalate_abc] by (simp add: run_escalate_abc root_inv_def)
  have t: "K2Timeout 1 \<in> fst ` set (timers (sidebar_of root_pending))"
    by (simp add: root_pending_facts)
  have d1: "escalationState (sidebar_of ?d1) = k2_failed" "pendingPassive ?d1 = None"
    "k2Mounted (sidebar_of ?d1) = Some 1" "resetDeps (sidebar_of ?d1) = Some ''abc''"
    "conversationId (sidebar_of ?d1) = ''abc''"
  proof -
    show "escalationState (sidebar_of ?d1) = k2_failed"
      by (subst callback_timeout(2) [OF ok t]) simp
    show "pendingPassive ?d1 = None" "k2Mounted (sidebar_of ?d1) = Some 1"
      "resetDeps (sidebar_of ?d1) = Some ''abc''"
      by (simp_all only: step_frame root_pending_facts)
    show "conversationId (sidebar_of ?d1) = ''abc''"
      by (simp add: root_step_def handle_conversationId root_pending_facts)
  qed
  let ?c1 = "root_step ?confirmed ?d1"
  have c1: "escalationState (sidebar_of ?c1) = k2_confirmed" "pendingPassive ?c1 = None"
    by (simp_all only: k2_verdict_applied(1) [OF d1(3)] step_frame root_pending_facts)
  have a0: "rendered (root_step Render ?c1) = k2_confirmed"
    by (simp only: render_flushed(3) [OF c1(2)] c1(1))
  have a: "rendered ?d2 = k2_failed"
    by (simp only: render_flushed(3) [OF d1(2)] d1(1))
  have d2: "k2Mounted (sidebar_of ?d2) = Some 1" "resetDeps (sidebar_of ?d2) = Some ''abc''"
    "pendingPassive ?d2 = Some (''abc'', k2_failed)"
    by (simp_all only: render_flushed(1,2) [OF d1(2)] render_frame d1)
  have d3: "escalationState (sidebar_of ?d3) = k2_confirmed"
    "resetDeps (sidebar_of ?d3) = Some ''abc''" "pendingPassive ?d3 = Some (''abc'', k2_failed)"
    by (simp_all only: k2_verdict_applied(1) [OF d2(1)] step_frame d2)
  have b: "rendered (root_step Render ?d3) = k2_confirmed"
    by (simp only: rendered_render flush_some(1) [OF d3(3)] effects_no_reset [OF d3(2)] d3(1))
  let ?e1 = "root_step ?failed root_pending"
  have c: "k2Explanation (sidebar_of ?e1) = ''K2 reasoning failed. Heuristic result retained.''"
    by (rule k2_verdict_applied(3) [OF root_pending_facts(4)])
  have ok1: "timers_ok (sidebar_of ?e1)"
    using timers_ok_handle [OF ok] by (simp add: root_step_def)
  have "timers (sidebar_of ?e1) = timers (sidebar_of root_pending)"
    using handle_timers [of "K2StatusArrived 1 (Ok k2_failed_sample)" "sidebar_of root_pending"]
    by (simp add: root_step_def)
  with t have t1: "K2Timeout 1 \<in> fst ` set (timers (sidebar_of ?e1))"
    by (simp only:)
  have d: "k2Explanation (sidebar_of (root_step ?timeout ?e1))
      = ''K2 reasoning timed out. Heuristic result retained.''"
    by (subst callback_timeout(2) [OF ok1 t1]) simp
  have run0: "root_run root_init (escalate_abc @ [?timeout]) = ?d1"
    "root_run root_init (escalate_abc @ [?timeout, ?confirmed, Render]) = root_step Render ?c1"
    by (simp_all only: root_run_append run_escalate_abc root_run_Cons root_run_Nil)
  have run1: "root_run root_init (escalate_abc @ [?timeout, Render]) = ?d2"
    "root_run root_init (escalate_abc @ [?timeout, Render, ?confirmed, Render])
       = root_step Render ?d3"
    "root_run root_init (escalate_abc @ [?failed]) = ?e1"
    "root_run root_init (escalate_abc @ [?failed, ?timeout]) = root_step ?timeout ?e1"
    by (simp_all only: root_run_append run_escalate_abc root_run_Cons root_run_Nil)
  show ?thesis
    by (simp only: run0 run1 run_escalate_abc root_pending_facts(1) d1(1) a0 a b c d simp_thms)
qed

lemma run_timed_out:
  "root_run root_pending [Callback (TimerFired (K2Timeout 1)), Render, Effects] = root_timed_out"
  by (simp add: root_run_def root_pending_def panel_pending_def root_timed_out_def
      panel_timed_out_def fire_def k2Timeout_def root_eval)

lemma root_timed_out_facts:
  "pendingPassive root_timed_out = None" "rendered root_timed_out = k2_failed"
  "escalationState (sidebar_of root_timed_out) = k2_failed"
  "resetDeps (sidebar_of root_timed_out) = Some (conversationId (sidebar_of root_timed_out))"
  "k2Explanation (sidebar_of root_timed_out) = ''K2 reasoning timed out. Heuristic result retained.''"
  "k2Mounted (sidebar_of root_timed_out) = None"
  by (simp_all add: root_timed_out_def panel_timed_out_def rendered_def)

text \<open>
  C4, amended. Under every schedule of callbacks, renders and effect phases: a time-out that
  is installed belongs to the mounted K2 run and has a period of 90000 ms; when it fires it
  sets \<open>k2_failed\<close> with the time-out explanation, and it is never installed again, so it
  fires at most once. Once the run is unmounted its status responses and its time-out
  change nothing, and the run is never mounted again. The effect phase unmounts the run:
  when it has run for a render outside \<open>escalated_pending\<close>, no K2 run is mounted; and
  when it has run for a render that shows \<open>k2_failed\<close> on the current conversation, the
  state and its explanation stay under every later schedule without a tab event. Until that
  effect phase a response or the time-out of the run is still applied.
\<close>

theorem k2_timeout_after_cleanup:
  assumes "d = root_run root_init past"
  shows "((K2Timeout g, p) \<in> set (timers (sidebar_of d)) \<longrightarrow>
       p = K2_TIMEOUT \<and> k2Mounted (sidebar_of d) = Some g \<and>
       root_step (Callback (TimerFired (K2Timeout g))) d =
         d\<lparr>sidebar_of := (sidebar_of d)
             \<lparr>timers := filter (\<lambda>x. fst x \<noteq> K2Timeout g) (timers (sidebar_of d)),
              escalationState := k2_failed,
              k2Explanation := ''K2 reasoning timed out. Heuristic result retained.''\<rparr>\<rparr> \<and>
       K2Timeout g \<notin> fst ` set (timers (sidebar_of
         (root_run (root_step (Callback (TimerFired (K2Timeout g))) d) tasks)))) \<and>
    (k2Mounted (sidebar_of d) \<noteq> Some g \<longrightarrow>
       root_step (Callback (K2StatusArrived g res)) d = d \<and>
       root_step (Callback (TimerFired (K2Timeout g))) d = d) \<and>
    (g < nextRun (sidebar_of d) \<and> k2Mounted (sidebar_of d) \<noteq> Some g \<longrightarrow>
       k2Mounted (sidebar_of (root_run d tasks)) \<noteq> Some g) \<and>
    (pendingPassive d = None \<and> rendered d \<noteq> escalated_pending \<longrightarrow>
       k2Mounted (sidebar_of d) = None) \<and>
    (pendingPassive d = None \<and> rendered d = k2_failed \<and>
     escalationState (sidebar_of d) = k2_failed \<and>
     resetDeps (sidebar_of d) = Some (conversationId (sidebar_of d)) \<and>
     (\<forall>t \<in> set tasks. \<not> is_tab_task t) \<longrightarrow>
       escalationState (sidebar_of (root_run d tasks)) = k2_failed \<and>
       rendered (root_run d tasks) = k2_failed \<and>
       k2Explanation (sidebar_of (root_run d tasks)) = k2Explanation (sidebar_of d)) \<and>
    K2_TIMEOUT = 90000"
proof -
  let ?s = "sidebar_of d"
  let ?fire = "root_step (Callback (TimerFired (K2Timeout g))) d"
  have inv: "root_inv d"
    unfolding assms by (rule root_inv_reachable)
  note ok = root_invD(1) [OF inv]
  have a: "p = K2_TIMEOUT \<and> k2Mounted ?s = Some g \<and>
       ?fire = d\<lparr>sidebar_of := ?s
             \<lparr>timers := filter (\<lambda>x. fst x \<noteq> K2Timeout g) (timers ?s),
              escalationState := k2_failed,
              k2Explanation := ''K2 reasoning timed out. Heuristic result retained.''\<rparr>\<rparr> \<and>
       K2Timeout g \<notin> fst ` set (timers (sidebar_of (root_run ?fire tasks)))"
    if tm: "(K2Timeout g, p) \<in> set (timers ?s)"
  proof -
    from tm have i: "K2Timeout g \<in> fst ` set (timers ?s)"
      by force
    note f = callback_timeout [OF ok i]
    from ok f(1) have g: "g < nextRun ?s"
      by (simp add: timers_ok_def)
    have "g < nextRun (sidebar_of ?fire)" "K2Timeout g \<notin> fst ` set (timers (sidebar_of ?fire))"
      using g by (auto simp: f(2))
    from root_run_runs(2) [OF this] timeout_period [OF ok tm] f show ?thesis
      by simp
  qed
  have b: "root_step (Callback (K2StatusArrived g res)) d = d \<and>
       root_step (Callback (TimerFired (K2Timeout g))) d = d"
    if "k2Mounted ?s \<noteq> Some g"
    using callback_unmounted(1,3) [OF that] ok by simp
  have c: "k2Mounted (sidebar_of (root_run d tasks)) \<noteq> Some g"
    if "g < nextRun ?s" "k2Mounted ?s \<noteq> Some g"
    by (rule root_run_runs(1) [OF that])
  have e: "k2Mounted ?s = None" if "pendingPassive d = None" "rendered d \<noteq> escalated_pending"
    using flushed_mounted [OF inv that(1)] that(2) by simp
  have f: "escalationState (sidebar_of (root_run d tasks)) = k2_failed \<and>
       rendered (root_run d tasks) = k2_failed \<and>
       k2Explanation (sidebar_of (root_run d tasks)) = k2Explanation ?s"
    if p: "pendingPassive d = None" and r: "rendered d = k2_failed"
      and es: "escalationState ?s = k2_failed"
      and rd: "resetDeps ?s = Some (conversationId ?s)"
      and q: "\<forall>t \<in> set tasks. \<not> is_tab_task t"
  proof -
    from e [OF p] r have "k2Mounted ?s = None"
      by simp
    with p r es rd have "closed_with k2_failed (k2Explanation ?s) d"
      by (simp add: closed_with_def)
    from closed_with_run [OF inv _ _ this q] show ?thesis
      by (simp add: closed_with_def)
  qed
  have h: "K2_TIMEOUT = 90000"
    by (simp add: K2_TIMEOUT_def)
  from a b c e f h show ?thesis
    by blast
qed

theorem k2_timeout_after_cleanup_witness:
  "(K2Timeout 1, 90000) \<in> set (timers (sidebar_of (root_run root_init escalate_abc))) \<and>
   escalationState (sidebar_of (root_step (Callback (TimerFired (K2Timeout 1)))
      (root_run root_init escalate_abc))) = k2_failed \<and>
   root_run root_init (escalate_abc @ [Callback (TimerFired (K2Timeout 1)), Render, Effects])
     = root_timed_out \<and>
   rendered root_timed_out = k2_failed \<and>
   root_step (Callback (K2StatusArrived 1 (Ok k2_confirmed_sample))) root_timed_out
     = root_timed_out \<and>
   root_step (Callback (TimerFired (K2Timeout 1))) root_timed_out = root_timed_out \<and>
   escalationState (sidebar_of (root_run root_timed_out
      [Callback (K2StatusArrived 1 (Ok k2_confirmed_sample)), Render, Effects,
       Callback (MetricsArrived 0 96000 (Ok metrics_two)), Render, Effects])) = k2_failed \<and>
   k2Explanation (sidebar_of (root_run root_timed_out
      [Callback (K2StatusArrived 1 (Ok k2_confirmed_sample)), Render, Effects,
       Callback (MetricsArrived 0 96000 (Ok metrics_two)), Render, Effects]))
     = ''K2 reasoning timed out. Heuristic result retained.''"
proof -
  let ?late = "[Callback (K2StatusArrived 1 (Ok k2_confirmed_sample)), Render, Effects,
       Callback (MetricsArrived 0 96000 (Ok metrics_two)), Render, Effects]"
  have run: "root_run root_init (escalate_abc @ [Callback (TimerFired (K2Timeout 1)), Render, Effects])
      = root_timed_out"
    by (simp only: root_run_append run_escalate_abc run_timed_out)
  have tm: "(K2Timeout 1, 90000) \<in> set (timers (sidebar_of root_pending))"
    by (simp add: root_pending_facts)
  have quiet: "\<forall>t \<in> set ?late. \<not> is_tab_task t"
    by (simp add: is_tab_task_def is_tab_def)
  from k2_timeout_after_cleanup [where d = "root_run root_init escalate_abc" and past = escalate_abc
      and g = 1 and p = 90000, OF refl] tm
  have a: "escalationState (sidebar_of (root_step (Callback (TimerFired (K2Timeout 1)))
      (root_run root_init escalate_abc))) = k2_failed"
    unfolding run_escalate_abc by simp
  from k2_timeout_after_cleanup [where d = "root_run root_init
        (escalate_abc @ [Callback (TimerFired (K2Timeout 1)), Render, Effects])"
      and past = "escalate_abc @ [Callback (TimerFired (K2Timeout 1)), Render, Effects]"
      and g = 1 and res = "Ok k2_confirmed_sample" and tasks = ?late, OF refl] quiet
  have b: "root_step (Callback (K2StatusArrived 1 (Ok k2_confirmed_sample))) root_timed_out
        = root_timed_out"
      "root_step (Callback (TimerFired (K2Timeout 1))) root_timed_out = root_timed_out"
      "escalationState (sidebar_of (root_run root_timed_out ?late)) = k2_failed"
      "k2Explanation (sidebar_of (root_run root_timed_out ?late))
        = ''K2 reasoning timed out. Heuristic result retained.''"
    unfolding run by (simp_all add: root_timed_out_facts)
  from a b run tm show ?thesis
    by (simp only: run_escalate_abc root_timed_out_facts simp_thms)
qed

subsection \<open>Verification polling\<close>

text \<open>
  C5 as stated fails. The sidebar is in \<open>escalated_pending\<close> on conversation \<open>abc\<close>
  with K2 run 1 mounted. A status response sets \<open>k2_confirmed\<close>: the state has left
  \<open>escalated_pending\<close>. In the next callbacks, before React has rendered, the interval of
  run 1 fires and issues one more request, and a response that reports a failure is applied:
  the render shows \<open>k2_failed\<close>. The same happens when React has rendered \<open>k2_confirmed\<close>
  in between and only the effect phase of that render has not run yet: the interval and the
  time-out of run 1 are still installed then.
\<close>

theorem k2_polling_after_leaving_counterexample:
  "rendered (root_run root_init escalate_abc) = escalated_pending \<and>
   escalationState (sidebar_of (root_run root_init
      (escalate_abc @ [Callback (K2StatusArrived 1 (Ok k2_confirmed_sample))]))) = k2_confirmed \<and>
   requests (sidebar_of (root_run root_init
      (escalate_abc @ [Callback (K2StatusArrived 1 (Ok k2_confirmed_sample)),
                       Callback (TimerFired (K2Interval 1))])))
     = [(0, GetMetrics ''abc''), (1, GetK2Status ''abc''), (1, GetK2Status ''abc'')] \<and>
   rendered (root_run root_init
      (escalate_abc @ [Callback (K2StatusArrived 1 (Ok k2_confirmed_sample)),
                       Callback (TimerFired (K2Interval 1)),
                       Callback (K2StatusArrived 1 (Ok k2_failed_sample)), Render]))
     = k2_failed \<and>
   rendered (root_run root_init
      (escalate_abc @ [Callback (K2StatusArrived 1 (Ok k2_confirmed_sample)), Render]))
     = k2_confirmed \<and>
   timers (sidebar_of (root_run root_init
      (escalate_abc @ [Callback (K2StatusArrived 1 (Ok k2_confirmed_sample)), Render])))
     = [(MetricsInterval 0, 1500), (K2Interval 1, 2000), (K2Timeout 1, 90000)] \<and>
   requests (sidebar_of (root_run root_init
      (escalate_abc @ [Callback (K2StatusArrived 1 (Ok k2_confirmed_sample)), Render,
                       Callback (TimerFired (K2Interval 1))])))
     = [(0, GetMetrics ''abc''), (1, GetK2Status ''abc''), (1, GetK2Status ''abc'')] \<and>
   rendered (root_run root_init
      (escalate_abc @ [Callback (K2StatusArrived 1 (Ok k2_confirmed_sample)), Render,
                       Callback (TimerFired (K2Interval 1)),
                       Callback (K2StatusArrived 1 (Ok k2_failed_sample)), Render]))
     = k2_failed"
proof -
  let ?confirmed = "Callback (K2StatusArrived 1 (Ok k2_confirmed_sample))"
  let ?failed = "Callback (K2StatusArrived 1 (Ok k2_failed_sample))"
  let ?tick = "Callback (TimerFired (K2Interval 1))"
  let ?d1 = "root_step ?confirmed root_pending"
  let ?d2 = "root_step Render ?d1"
  let ?d3 = "root_step ?tick ?d2"
  let ?d4 = "root_step ?failed ?d3"
  have d1: "escalationState (sidebar_of ?d1) = k2_confirmed" "pendingPassive ?d1 = None"
    "k2Mounted (sidebar_of ?d1) = Some 1" "resetDeps (sidebar_of ?d1) = Some ''abc''"
    "k2Deps (sidebar_of ?d1) = Some (''abc'', escalated_pending)"
    "conversationId (sidebar_of ?d1) = ''abc''"
    "timers (sidebar_of ?d1) = [(MetricsInterval 0, 1500), (K2Interval 1, 2000), (K2Timeout 1, 90000)]"
    "requests (sidebar_of ?d1) = [(0, GetMetrics ''abc''), (1, GetK2Status ''abc'')]"
    by (simp_all only: k2_verdict_applied(1) [OF root_pending_facts(4)] step_frame response_frame
        root_pending_facts)
  let ?c2 = "root_step ?tick ?d1"
  let ?c3 = "root_step ?failed ?c2"
  have run0: "root_run root_init (escalate_abc @ [?confirmed]) = ?d1"
    "root_run root_init (escalate_abc @ [?confirmed, ?tick]) = ?c2"
    "root_run root_init (escalate_abc @ [?confirmed, ?tick, ?failed, Render]) = root_step Render ?c3"
    by (simp_all only: root_run_append run_escalate_abc root_run_Cons root_run_Nil)
  have "root_inv ?d1"
    unfolding run0(1) [symmetric] by (rule root_inv_reachable)
  then have ok1: "timers_ok (sidebar_of ?d1)"
    by (rule root_invD)
  have kc1: "k2Closure (sidebar_of ?d1) = ''abc''"
    by (simp only: k2Closure_def d1(5) option.case fst_conv)
  have c2: "requests (sidebar_of ?c2) =
      [(0, GetMetrics ''abc''), (1, GetK2Status ''abc''), (1, GetK2Status ''abc'')]"
    "k2Mounted (sidebar_of ?c2) = Some 1" "pendingPassive ?c2 = None"
  proof -
    show "requests (sidebar_of ?c2) =
        [(0, GetMetrics ''abc''), (1, GetK2Status ''abc''), (1, GetK2Status ''abc'')]"
      by (subst callback_k2_tick(2) [OF ok1 d1(3)])
        (simp only: kc1 d1(8) append.simps, simp)
    show "k2Mounted (sidebar_of ?c2) = Some 1" "pendingPassive ?c2 = None"
      using d1 by (simp_all add: step_frame)
  qed
  have c3: "escalationState (sidebar_of ?c3) = k2_failed" "pendingPassive ?c3 = None"
    by (simp_all only: k2_verdict_applied(2) [OF c2(2)] step_frame root_pending_facts)
  have a0: "rendered (root_step Render ?c3) = k2_failed"
    by (simp only: render_flushed(3) [OF c3(2)] c3(1))
  have a: "rendered ?d2 = k2_confirmed"
    by (simp only: render_flushed(3) [OF d1(2)] d1(1))
  have d2: "k2Mounted (sidebar_of ?d2) = Some 1" "resetDeps (sidebar_of ?d2) = Some ''abc''"
    "k2Deps (sidebar_of ?d2) = Some (''abc'', escalated_pending)"
    "pendingPassive ?d2 = Some (''abc'', k2_confirmed)"
    "timers (sidebar_of ?d2) = [(MetricsInterval 0, 1500), (K2Interval 1, 2000), (K2Timeout 1, 90000)]"
    "requests (sidebar_of ?d2) = [(0, GetMetrics ''abc''), (1, GetK2Status ''abc'')]"
    by (simp_all only: render_flushed(1,2) [OF d1(2)] render_frame d1)
  have run2: "root_run root_init (escalate_abc @ [?confirmed, Render]) = ?d2"
    by (simp only: root_run_append run_escalate_abc root_run_Cons root_run_Nil)
  have "root_inv ?d2"
    unfolding run2 [symmetric] by (rule root_inv_reachable)
  then have ok2: "timers_ok (sidebar_of ?d2)"
    by (rule root_invD)
  have kc: "k2Closure (sidebar_of ?d2) = ''abc''"
    by (simp only: k2Closure_def d2(3) option.case fst_conv)
  have d3: "requests (sidebar_of ?d3) =
      [(0, GetMetrics ''abc''), (1, GetK2Status ''abc''), (1, GetK2Status ''abc'')]"
    "k2Mounted (sidebar_of ?d3) = Some 1" "resetDeps (sidebar_of ?d3) = Some ''abc''"
    "pendingPassive ?d3 = Some (''abc'', k2_confirmed)"
  proof -
    show "requests (sidebar_of ?d3) =
        [(0, GetMetrics ''abc''), (1, GetK2Status ''abc''), (1, GetK2Status ''abc'')]"
      by (subst callback_k2_tick(2) [OF ok2 d2(1)])
        (simp only: kc d2(6) append.simps, simp)
    show "k2Mounted (sidebar_of ?d3) = Some 1" "resetDeps (sidebar_of ?d3) = Some ''abc''"
      "pendingPassive ?d3 = Some (''abc'', k2_confirmed)"
      using d2 by (simp_all add: step_frame)
  qed
  have d4: "escalationState (sidebar_of ?d4) = k2_failed"
    "resetDeps (sidebar_of ?d4) = Some ''abc''" "pendingPassive ?d4 = Some (''abc'', k2_confirmed)"
    by (simp_all only: k2_verdict_applied(2) [OF d3(2)] step_frame d2)
  have b: "rendered (root_step Render ?d4) = k2_failed"
    by (simp only: rendered_render flush_some(1) [OF d4(3)] effects_no_reset [OF d4(2)] d4(1))
  have run: "root_run root_init (escalate_abc @ [?confirmed, Render, ?tick]) = ?d3"
    "root_run root_init (escalate_abc @ [?confirmed, Render, ?tick, ?failed, Render])
       = root_step Render ?d4"
    by (simp_all only: root_run_append run_escalate_abc root_run_Cons root_run_Nil)
  show ?thesis
    by (simp only: run0 run run2 run_escalate_abc root_pending_facts(1) d1(1) c2(1) a0 a b
        d2(5) d3(1) simp_thms)
qed

text \<open>
  C5, amended. Under every schedule of callbacks, renders and effect phases: a K2 polling
  run is mounted exactly when the last effect phase ran for a render in \<open>escalated_pending\<close>
  on a conversation, so once the effect phase of the latest render has run, a run is mounted
  exactly when the rendered state is \<open>escalated_pending\<close>. The effect phase of a render
  in \<open>escalated_pending\<close> whose dependencies changed mounts a fresh run, issues its first
  status request at once and installs its interval of 2000 ms and its time-out of 90000 ms.
  While a run is mounted its interval is installed and each tick issues one more request for
  the conversation of the run. The effect phase of a render whose dependencies differ from
  those of the mounted run unmounts it and clears its interval and its time-out, and mounts
  no run when the render is outside \<open>escalated_pending\<close>. From then on the interval, the
  time-out and the responses of that run change nothing, and the run is never mounted again.
  Between a callback that sets a state outside \<open>escalated_pending\<close> and that effect phase the
  run is still mounted, and its timers and responses are still applied.
\<close>

theorem k2_polling_lifecycle:
  assumes "d = root_run root_init past"
  shows "(k2Mounted (sidebar_of d) \<noteq> None \<longleftrightarrow>
       (\<exists>c. c \<noteq> [] \<and> k2Deps (sidebar_of d) = Some (c, escalated_pending))) \<and>
    (pendingPassive d = None \<longrightarrow>
       (k2Mounted (sidebar_of d) \<noteq> None \<longleftrightarrow> rendered d = escalated_pending)) \<and>
    (pendingPassive d = Some (cid, escalated_pending) \<and>
     k2Deps (sidebar_of d) \<noteq> Some (cid, escalated_pending) \<longrightarrow>
       (\<exists>k. nextRun (sidebar_of d) \<le> k \<and>
          k2Mounted (sidebar_of (root_step Effects d)) = Some k \<and>
          last (requests (sidebar_of (root_step Effects d))) = (k, GetK2Status cid) \<and>
          (K2Interval k, K2_POLL_INTERVAL) \<in> set (timers (sidebar_of (root_step Effects d))) \<and>
          (K2Timeout k, K2_TIMEOUT) \<in> set (timers (sidebar_of (root_step Effects d))))) \<and>
    (k2Mounted (sidebar_of d) = Some g \<longrightarrow>
       (K2Interval g, K2_POLL_INTERVAL) \<in> set (timers (sidebar_of d)) \<and>
       root_step (Callback (TimerFired (K2Interval g))) d =
         d\<lparr>sidebar_of := (sidebar_of d)
             \<lparr>requests := requests (sidebar_of d) @
                [(g, GetK2Status (k2Closure (sidebar_of d)))]\<rparr>\<rparr>) \<and>
    (pendingPassive d = Some r \<and> k2Deps (sidebar_of d) \<noteq> Some r \<and>
     k2Mounted (sidebar_of d) = Some g \<longrightarrow>
       k2Mounted (sidebar_of (root_step Effects d)) \<noteq> Some g \<and>
       K2Interval g \<notin> fst ` set (timers (sidebar_of (root_step Effects d))) \<and>
       K2Timeout g \<notin> fst ` set (timers (sidebar_of (root_step Effects d))) \<and>
       (snd r \<noteq> escalated_pending \<longrightarrow> k2Mounted (sidebar_of (root_step Effects d)) = None)) \<and>
    (k2Mounted (sidebar_of d) \<noteq> Some g \<longrightarrow>
       root_step (Callback (TimerFired (K2Interval g))) d = d \<and>
       root_step (Callback (TimerFired (K2Timeout g))) d = d \<and>
       root_step (Callback (K2StatusArrived g res)) d = d) \<and>
    (g < nextRun (sidebar_of d) \<and> k2Mounted (sidebar_of d) \<noteq> Some g \<longrightarrow>
       k2Mounted (sidebar_of (root_run d tasks)) \<noteq> Some g) \<and>
    K2_POLL_INTERVAL = 2000 \<and> K2_TIMEOUT = 90000"
proof -
  let ?s = "sidebar_of d"
  have inv: "root_inv d"
    unfolding assms by (rule root_inv_reachable)
  note i = root_invD [OF inv]
  have a: "k2Mounted ?s \<noteq> None \<longleftrightarrow> (\<exists>c. c \<noteq> [] \<and> k2Deps ?s = Some (c, escalated_pending))"
    using i(2) by (simp add: deps_ok_def)
  have b: "pendingPassive d = None \<longrightarrow> (k2Mounted ?s \<noteq> None \<longleftrightarrow> rendered d = escalated_pending)"
    using flushed_mounted [OF inv] by blast
  have c: "\<exists>k. nextRun ?s \<le> k \<and>
          k2Mounted (sidebar_of (root_step Effects d)) = Some k \<and>
          last (requests (sidebar_of (root_step Effects d))) = (k, GetK2Status cid) \<and>
          (K2Interval k, K2_POLL_INTERVAL) \<in> set (timers (sidebar_of (root_step Effects d))) \<and>
          (K2Timeout k, K2_TIMEOUT) \<in> set (timers (sidebar_of (root_step Effects d)))"
    if p: "pendingPassive d = Some (cid, escalated_pending)"
      and ch: "k2Deps ?s \<noteq> Some (cid, escalated_pending)"
  proof -
    from i(6) p have "cid \<noteq> []"
      by (simp add: passive_ok_def)
    from effects_k2_start [OF ch this] show ?thesis
      by (simp only: flush_some(2) [OF p])
  qed
  have e: "(K2Interval g, K2_POLL_INTERVAL) \<in> set (timers ?s) \<and>
       root_step (Callback (TimerFired (K2Interval g))) d =
         d\<lparr>sidebar_of := ?s\<lparr>requests := requests ?s @ [(g, GetK2Status (k2Closure ?s))]\<rparr>\<rparr>"
    if "k2Mounted ?s = Some g"
    using callback_k2_tick [OF i(1) that] by simp
  have f: "k2Mounted (sidebar_of (root_step Effects d)) \<noteq> Some g \<and>
       K2Interval g \<notin> fst ` set (timers (sidebar_of (root_step Effects d))) \<and>
       K2Timeout g \<notin> fst ` set (timers (sidebar_of (root_step Effects d))) \<and>
       (snd r \<noteq> escalated_pending \<longrightarrow> k2Mounted (sidebar_of (root_step Effects d)) = None)"
    if p: "pendingPassive d = Some r" and ch: "k2Deps ?s \<noteq> Some r" and m: "k2Mounted ?s = Some g"
  proof -
    from p have p': "pendingPassive d = Some (fst r, snd r)"
      by simp
    from ch have ch': "k2Deps ?s \<noteq> Some (fst r, snd r)"
      by simp
    from effects_k2_end [OF i(1) m ch'] show ?thesis
      by (simp only: flush_some(2) [OF p']) blast
  qed
  have h: "root_step (Callback (TimerFired (K2Interval g))) d = d \<and>
       root_step (Callback (TimerFired (K2Timeout g))) d = d \<and>
       root_step (Callback (K2StatusArrived g res)) d = d"
    if "k2Mounted ?s \<noteq> Some g"
    using callback_unmounted [OF that] i(1) by simp
  have j: "k2Mounted (sidebar_of (root_run d tasks)) \<noteq> Some g"
    if "g < nextRun ?s" "k2Mounted ?s \<noteq> Some g"
    by (rule root_run_runs(1) [OF that])
  have k: "K2_POLL_INTERVAL = 2000" "K2_TIMEOUT = 90000"
    by (simp_all add: K2_POLL_INTERVAL_def K2_TIMEOUT_def)
  show ?thesis
    apply (intro conjI impI)
    subgoal by (rule a)
    subgoal using b by blast
    subgoal using c by blast
    subgoal using e by blast
    subgoal using e by blast
    subgoal using f by blast
    subgoal using f by blast
    subgoal using f by blast
    subgoal using f by blast
    subgoal using h by blast
    subgoal using h by blast
    subgoal using h by blast
    subgoal using j by blast
    subgoal by (rule k)
    subgoal by (rule k)
    done
qed

lemma root_idle_more:
  "pendingPassive root_idle = None" "conversationId (sidebar_of root_idle) = ''abc''"
  "k2Deps (sidebar_of root_idle) = Some (''abc'', idle)"
  by (simp_all add: root_idle_def panel_idle_def)

lemma escalated_rendered:
  "pendingPassive (root_run root_idle [Callback (MetricsArrived 0 1500 (Ok metrics_one)), Render])
     = Some (''abc'', escalated_pending)"
  "k2Deps (sidebar_of
     (root_run root_idle [Callback (MetricsArrived 0 1500 (Ok metrics_one)), Render]))
     = Some (''abc'', idle)"
proof -
  let ?d0 = "root_step (Callback (MetricsArrived 0 1500 (Ok metrics_one))) root_idle"
  have d0: "pendingPassive ?d0 = None" "conversationId (sidebar_of ?d0) = ''abc''"
    "k2Deps (sidebar_of ?d0) = Some (''abc'', idle)"
    by (simp_all only: step_frame response_frame root_idle_more)
  have e0: "escalationState (sidebar_of ?d0) = escalated_pending"
    by (rule poll_at_idle [OF root_idle_facts(3,2)]) (simp add: sample_facts)
  have r: "root_run root_idle [Callback (MetricsArrived 0 1500 (Ok metrics_one)), Render]
      = root_step Render ?d0"
    by (simp only: root_run_Cons root_run_Nil)
  show "pendingPassive (root_run root_idle [Callback (MetricsArrived 0 1500 (Ok metrics_one)), Render])
     = Some (''abc'', escalated_pending)"
    by (simp only: r render_flushed(2) [OF d0(1)] d0(2) e0)
  show "k2Deps (sidebar_of
     (root_run root_idle [Callback (MetricsArrived 0 1500 (Ok metrics_one)), Render]))
     = Some (''abc'', idle)"
    by (simp only: r render_flushed(1) [OF d0(1)] render_frame d0(3))
qed

lemma confirmed_rendered:
  "pendingPassive (root_run root_pending
      [Callback (K2StatusArrived 1 (Ok k2_confirmed_sample)), Render]) = Some (''abc'', k2_confirmed)"
  "k2Deps (sidebar_of (root_run root_pending
      [Callback (K2StatusArrived 1 (Ok k2_confirmed_sample)), Render]))
     = Some (''abc'', escalated_pending)"
  "k2Mounted (sidebar_of (root_run root_pending
      [Callback (K2StatusArrived 1 (Ok k2_confirmed_sample)), Render])) = Some 1"
proof -
  let ?d1 = "root_step (Callback (K2StatusArrived 1 (Ok k2_confirmed_sample))) root_pending"
  have d1: "escalationState (sidebar_of ?d1) = k2_confirmed" "pendingPassive ?d1 = None"
    "k2Mounted (sidebar_of ?d1) = Some 1"
    "k2Deps (sidebar_of ?d1) = Some (''abc'', escalated_pending)"
    "conversationId (sidebar_of ?d1) = ''abc''"
    by (simp_all only: k2_verdict_applied(1) [OF root_pending_facts(4)] step_frame response_frame
        root_pending_facts)
  have r: "root_run root_pending [Callback (K2StatusArrived 1 (Ok k2_confirmed_sample)), Render]
      = root_step Render ?d1"
    by (simp only: root_run_Cons root_run_Nil)
  show "pendingPassive (root_run root_pending
      [Callback (K2StatusArrived 1 (Ok k2_confirmed_sample)), Render]) = Some (''abc'', k2_confirmed)"
    "k2Deps (sidebar_of (root_run root_pending
      [Callback (K2StatusArrived 1 (Ok k2_confirmed_sample)), Render]))
     = Some (''abc'', escalated_pending)"
    "k2Mounted (sidebar_of (root_run root_pending
      [Callback (K2StatusArrived 1 (Ok k2_confirmed_sample)), Render])) = Some 1"
    by (simp_all only: r render_flushed(1,2) [OF d1(2)] render_frame d1)
qed

theorem k2_polling_lifecycle_witness:
  "pendingPassive (root_run root_init
      (mount_abc @ [Callback (MetricsArrived 0 1500 (Ok metrics_one)), Render]))
     = Some (''abc'', escalated_pending) \<and>
   (\<exists>k. k2Mounted (sidebar_of (root_run root_init escalate_abc)) = Some k \<and>
        last (requests (sidebar_of (root_run root_init escalate_abc))) = (k, GetK2Status ''abc'') \<and>
        (K2Interval k, 2000) \<in> set (timers (sidebar_of (root_run root_init escalate_abc))) \<and>
        (K2Timeout k, 90000) \<in> set (timers (sidebar_of (root_run root_init escalate_abc)))) \<and>
   k2Mounted (sidebar_of (root_run root_init escalate_abc)) = Some 1 \<and>
   requests (sidebar_of (root_step (Callback (TimerFired (K2Interval 1)))
      (root_run root_init escalate_abc)))
     = [(0, GetMetrics ''abc''), (1, GetK2Status ''abc''), (1, GetK2Status ''abc'')] \<and>
   k2Mounted (sidebar_of (root_run root_init
      (escalate_abc @ [Callback (K2StatusArrived 1 (Ok k2_confirmed_sample)), Render, Effects])))
     = None \<and>
   K2Interval 1 \<notin> fst ` set (timers (sidebar_of (root_run root_init
      (escalate_abc @ [Callback (K2StatusArrived 1 (Ok k2_confirmed_sample)), Render, Effects])))) \<and>
   K2Timeout 1 \<notin> fst ` set (timers (sidebar_of (root_run root_init
      (escalate_abc @ [Callback (K2StatusArrived 1 (Ok k2_confirmed_sample)), Render, Effects])))) \<and>
   root_step (Callback (TimerFired (K2Interval 1))) root_timed_out = root_timed_out \<and>
   root_step (Callback (K2StatusArrived 1 (Ok k2_failed_sample))) root_timed_out = root_timed_out \<and>
   k2Mounted (sidebar_of (root_run root_timed_out
      [Callback (MetricsArrived 0 96000 (Ok metrics_two)), Render, Effects])) \<noteq> Some 1"
proof -
  let ?poll = "Callback (MetricsArrived 0 1500 (Ok metrics_one))"
  let ?confirmed = "Callback (K2StatusArrived 1 (Ok k2_confirmed_sample))"
  let ?a = "mount_abc @ [?poll, Render]"
  let ?e = "escalate_abc @ [?confirmed, Render]"
  let ?t = "escalate_abc @ [Callback (TimerFired (K2Timeout 1)), Render, Effects]"
  have ra: "root_run root_init ?a = root_run root_idle [?poll, Render]"
    by (simp only: root_run_append run_mount_abc)
  have rb: "root_step Effects (root_run root_init ?a) = root_run root_init escalate_abc"
    by (simp only: escalate_abc_def root_run_append root_run_Cons root_run_Nil)
  have re: "root_run root_init ?e = root_run root_pending [?confirmed, Render]"
    by (simp only: root_run_append run_escalate_abc)
  have rf: "root_step Effects (root_run root_init ?e) =
      root_run root_init (escalate_abc @ [?confirmed, Render, Effects])"
    by (simp only: root_run_append root_run_Cons root_run_Nil)
  have rt: "root_run root_init ?t = root_timed_out"
    by (simp only: root_run_append run_escalate_abc run_timed_out)
  from k2_polling_lifecycle [where d = "root_run root_init ?a" and past = ?a
      and cid = "''abc''", OF refl]
  have a: "\<exists>k. k2Mounted (sidebar_of (root_run root_init escalate_abc)) = Some k \<and>
        last (requests (sidebar_of (root_run root_init escalate_abc))) = (k, GetK2Status ''abc'') \<and>
        (K2Interval k, 2000) \<in> set (timers (sidebar_of (root_run root_init escalate_abc))) \<and>
        (K2Timeout k, 90000) \<in> set (timers (sidebar_of (root_run root_init escalate_abc)))"
    unfolding rb by (simp add: ra escalated_rendered del: One_nat_def) blast
  from k2_polling_lifecycle [where d = "root_run root_init escalate_abc" and past = escalate_abc
      and g = 1, OF refl]
  have b: "requests (sidebar_of (root_step (Callback (TimerFired (K2Interval 1)))
      (root_run root_init escalate_abc)))
     = [(0, GetMetrics ''abc''), (1, GetK2Status ''abc''), (1, GetK2Status ''abc'')]"
    unfolding run_escalate_abc by (simp add: root_pending_facts del: One_nat_def)
  from k2_polling_lifecycle [where d = "root_run root_init ?e" and past = ?e
      and g = 1 and r = "(''abc'', k2_confirmed)", OF refl]
  have c: "k2Mounted (sidebar_of (root_run root_init
        (escalate_abc @ [?confirmed, Render, Effects]))) = None"
    "K2Interval 1 \<notin> fst ` set (timers (sidebar_of (root_run root_init
        (escalate_abc @ [?confirmed, Render, Effects]))))"
    "K2Timeout 1 \<notin> fst ` set (timers (sidebar_of (root_run root_init
        (escalate_abc @ [?confirmed, Render, Effects]))))"
    unfolding rf by (simp_all add: re confirmed_rendered del: One_nat_def)
  from k2_polling_lifecycle [where d = "root_run root_init ?t" and past = ?t
      and g = 1 and res = "Ok k2_failed_sample"
      and tasks = "[Callback (MetricsArrived 0 96000 (Ok metrics_two)), Render, Effects]", OF refl]
  have d: "root_step (Callback (TimerFired (K2Interval 1))) root_timed_out = root_timed_out"
    "root_step (Callback (K2StatusArrived 1 (Ok k2_failed_sample))) root_timed_out = root_timed_out"
    "k2Mounted (sidebar_of (root_run root_timed_out
        [Callback (MetricsArrived 0 96000 (Ok metrics_two)), Render, Effects])) \<noteq> Some 1"
    unfolding rt
    by (simp_all add: root_timed_out_facts del: One_nat_def)
      (simp add: root_timed_out_def panel_timed_out_def)
  have p: "pendingPassive (root_run root_init ?a) = Some (''abc'', escalated_pending)"
    by (simp only: ra escalated_rendered)
  have m: "k2Mounted (sidebar_of (root_run root_init escalate_abc)) = Some 1"
    by (simp only: run_escalate_abc root_pending_facts)
  from a b c d p m show ?thesis
    by (intro conjI)
qed

section \<open>Properties of the system\<close>




end
